theory Spec2Isabelle
  imports Main "HOL-Library.Sublist"
begin

section \<open>Data model\<close>

text \<open>
  The bot keeps one \<^verbatim>\<open>GuildPlayer\<close> per guild in the dictionary \<^verbatim>\<open>players\<close>;
  \<^verbatim>\<open>get_player\<close> creates it on first use. Every handler touches only the player
  and the voice client of the guild of its interaction, so the development follows one
  guild: its player, its voice client, the idle tasks it has created on the event
  loop, and a clock in seconds.
\<close>

record Song =
  title :: string
  stream_url :: string
  webpage_url :: string
  requester_id :: int

datatype exn =
    RuntimeError string
  | ValueError string
  | DownloadError string
  | ClientException string
  | OtherException string

fun str_exn :: "exn \<Rightarrow> string" where
  "str_exn (RuntimeError m) = m"
| "str_exn (ValueError m) = m"
| "str_exn (DownloadError m) = m"
| "str_exn (ClientException m) = m"
| "str_exn (OtherException m) = m"

record VoiceChannel =
  channel_id :: nat
  channel_name :: string

text \<open>
  What the code reads of a \<^verbatim>\<open>discord.VoiceClient\<close>: its channel and the answers of
  \<^verbatim>\<open>is_connected()\<close>, \<^verbatim>\<open>is_playing()\<close> and \<^verbatim>\<open>is_paused()\<close>.
\<close>

record VoiceClient =
  channel :: VoiceChannel
  is_connected :: bool
  is_playing :: bool
  is_paused :: bool

text \<open>
  An idle task is the coroutine \<^verbatim>\<open>_idle_disconnect\<close> wrapped by
  \<^verbatim>\<open>asyncio.create_task\<close>: it sleeps until \<open>wake_at\<close>, then runs its body,
  unless it was cancelled while asleep.
\<close>

datatype task_status = Sleeping | Cancelled | Done

record IdleTask =
  wake_at :: nat
  status :: task_status

text \<open>
  Observable actions, in the order they happen. A queue mutation records whether
  \<^verbatim>\<open>player.lock\<close> was held at that moment.
\<close>

datatype action =
    QAppend Song bool
  | QPopleft Song bool
  | QClear bool
  | NowPlaying Song
  | Disconnect

record GuildState =
  queue :: "Song list"
  lock :: bool
  now_playing :: "Song option"
  idle_task :: "nat option"
  voice_client :: "VoiceClient option"
  tasks :: "IdleTask list"
  clock :: nat
  trace :: "action list"

definition MAX_SPOTIFY_TRACKS :: nat where
  "MAX_SPOTIFY_TRACKS = 25"

definition IDLE_TIMEOUT_SECONDS :: nat where
  "IDLE_TIMEOUT_SECONDS = 60 * 60"

text \<open>\<^verbatim>\<open>GuildPlayer()\<close> in a guild the bot has not joined, at time 0.\<close>

definition new_guild :: GuildState where
  "new_guild = \<lparr>queue = [], lock = False, now_playing = None, idle_task = None,
     voice_client = None, tasks = [], clock = 0, trace = []\<rparr>"

text \<open>
  A coroutine either returns, raises, or waits for ever; each outcome carries the state
  it leaves behind.
\<close>

datatype 'a outcome = Returns 'a | Raises exn 'a | Blocked 'a

fun state_of :: "'a outcome \<Rightarrow> 'a" where
  "state_of (Returns s) = s"
| "state_of (Raises e s) = s"
| "state_of (Blocked s) = s"

section \<open>Queue primitives\<close>

definition q_append :: "Song \<Rightarrow> GuildState \<Rightarrow> GuildState" where
  "q_append song g = g\<lparr>queue := queue g @ [song], trace := trace g @ [QAppend song (lock g)]\<rparr>"

definition q_clear :: "GuildState \<Rightarrow> GuildState" where
  "q_clear g = g\<lparr>queue := [], trace := trace g @ [QClear (lock g)]\<rparr>"

section \<open>Idle-disconnect scheduler\<close>

definition cancel_idle_disconnect :: "GuildState \<Rightarrow> GuildState" where
  "cancel_idle_disconnect g =
     (case idle_task g of
        None \<Rightarrow> g\<lparr>idle_task := None\<rparr>
      | Some i \<Rightarrow>
          (if i < length (tasks g) \<and> status (tasks g ! i) = Sleeping
           then g\<lparr>tasks := (tasks g)[i := (tasks g ! i)\<lparr>status := Cancelled\<rparr>], idle_task := None\<rparr>
           else g\<lparr>idle_task := None\<rparr>))"

definition schedule_idle_disconnect :: "GuildState \<Rightarrow> GuildState" where
  "schedule_idle_disconnect g =
     (let g1 = cancel_idle_disconnect g
      in g1\<lparr>tasks := tasks g1 @ [\<lparr>wake_at = clock g1 + IDLE_TIMEOUT_SECONDS, status = Sleeping\<rparr>],
             idle_task := Some (length (tasks g1))\<rparr>)"

text \<open>
  \<^verbatim>\<open>vc.disconnect()\<close>: the library stops the player and removes the voice client from
  the guild, so that \<^verbatim>\<open>guild.voice_client\<close> is \<^verbatim>\<open>None\<close> afterwards.
\<close>

definition vc_disconnect :: "GuildState \<Rightarrow> GuildState" where
  "vc_disconnect g = g\<lparr>voice_client := None, trace := trace g @ [Disconnect]\<rparr>"

text \<open>The body of \<^verbatim>\<open>_idle_disconnect\<close> after its sleep.\<close>

definition idle_disconnect_body :: "GuildState \<Rightarrow> GuildState" where
  "idle_disconnect_body g =
     (case voice_client g of
        None \<Rightarrow> g
      | Some vc \<Rightarrow>
          if is_connected vc \<and> \<not> is_playing vc \<and> \<not> is_paused vc \<and> queue g = []
          then (vc_disconnect g)\<lparr>now_playing := None\<rparr>
          else g)"

text \<open>
  Task \<open>i\<close> wakes when its sleep is over. A cancelled task gets \<^verbatim>\<open>CancelledError\<close>
  inside its sleep and passes; a finished task does nothing more.
\<close>

definition wake :: "nat \<Rightarrow> GuildState \<Rightarrow> GuildState" where
  "wake i g =
     (if i < length (tasks g) \<and> status (tasks g ! i) = Sleeping \<and> wake_at (tasks g ! i) \<le> clock g
      then idle_disconnect_body (g\<lparr>tasks := (tasks g)[i := (tasks g ! i)\<lparr>status := Done\<rparr>]\<rparr>)
      else g)"

text \<open>\<open>dt\<close> seconds pass; the tasks whose sleep is over wake in creation order.\<close>

definition elapse :: "nat \<Rightarrow> GuildState \<Rightarrow> GuildState" where
  "elapse dt g = fold wake [0..<length (tasks g)] (g\<lparr>clock := clock g + dt\<rparr>)"

section \<open>Playback driver\<close>

definition release :: "GuildState \<Rightarrow> GuildState" where
  "release g = g\<lparr>lock := False\<rparr>"

definition popleft :: "Song \<Rightarrow> Song list \<Rightarrow> GuildState \<Rightarrow> GuildState" where
  "popleft song rest g = g\<lparr>queue := rest, trace := trace g @ [QPopleft song (lock g)]\<rparr>"

definition set_now_playing :: "Song \<Rightarrow> GuildState \<Rightarrow> GuildState" where
  "set_now_playing song g = g\<lparr>now_playing := Some song, trace := trace g @ [NowPlaying song]\<rparr>"

text \<open>
  \<^verbatim>\<open>voice_client.play(source, after=...)\<close> and \<^verbatim>\<open>vc.stop()\<close> on the guild's voice
  client. The library's \<^verbatim>\<open>play\<close> raises \<^verbatim>\<open>ClientException\<close> on a client that is not
  connected.
\<close>

definition vc_play :: "GuildState \<Rightarrow> GuildState" where
  "vc_play g = g\<lparr>voice_client :=
     map_option (\<lambda>vc. vc\<lparr>is_playing := True, is_paused := False\<rparr>) (voice_client g)\<rparr>"

definition vc_stop :: "GuildState \<Rightarrow> GuildState" where
  "vc_stop g = g\<lparr>voice_client :=
     map_option (\<lambda>vc. vc\<lparr>is_playing := False, is_paused := False\<rparr>) (voice_client g)\<rparr>"

text \<open>
  \<^verbatim>\<open>play_next\<close>. The parameter \<open>ffmpeg_ok\<close> says for which stream URLs
  \<^verbatim>\<open>discord.FFmpegPCMAudio\<close> can be constructed. \<^verbatim>\<open>player.lock\<close> is an
  \<^verbatim>\<open>asyncio.Lock\<close>, which is not reentrant. The only \<^verbatim>\<open>await\<close> inside the
  critical section is the recursive call, so a lock that is taken when \<^verbatim>\<open>play_next\<close>
  asks for it is held by a caller that waits for this very call, or by an earlier call
  that waits in that way: the request is never granted.
\<close>

function play_next :: "(string \<Rightarrow> bool) \<Rightarrow> GuildState \<Rightarrow> GuildState outcome" where
  "play_next ffmpeg_ok g =
     (case voice_client g of
        None \<Rightarrow> Returns g
      | Some vc \<Rightarrow>
          if lock g then Blocked g
          else
            let g1 = g\<lparr>lock := True\<rparr> in
            if is_playing vc \<or> is_paused vc then Returns (release (cancel_idle_disconnect g1))
            else
              (case queue g1 of
                 [] \<Rightarrow> Returns (release (schedule_idle_disconnect (g1\<lparr>now_playing := None\<rparr>)))
               | song # rest \<Rightarrow>
                   let g2 = popleft song rest g1;
                       g3 = set_now_playing song g2;
                       g4 = cancel_idle_disconnect g3
                   in if \<not> ffmpeg_ok (stream_url song)
                      then (case play_next ffmpeg_ok (g4\<lparr>now_playing := None\<rparr>) of
                              Returns r \<Rightarrow> Returns (release r)
                            | Raises e r \<Rightarrow> Raises e (release r)
                            | Blocked b \<Rightarrow> Blocked b)
                      else if is_connected vc then Returns (release (vc_play g4))
                      else Raises (ClientException ''Not connected to voice.'') (release g4)))"
  by pat_completeness auto
termination
  by (relation "measure (\<lambda>(f, g). length (queue g))")
     (auto simp: popleft_def set_now_playing_def cancel_idle_disconnect_def split: option.splits)

declare play_next.simps [simp del]

text \<open>
  The player thread has ended (the stream ran out, or \<^verbatim>\<open>vc.stop()\<close> ended it) and
  calls \<^verbatim>\<open>_after_playback\<close>, which puts \<^verbatim>\<open>play_next(guild)\<close> on the bot's loop.
\<close>

definition after_playback :: "(string \<Rightarrow> bool) \<Rightarrow> GuildState \<Rightarrow> GuildState outcome" where
  "after_playback ffmpeg_ok g = play_next ffmpeg_ok (vc_stop g)"

text \<open>\<open>n\<close> calls of \<^verbatim>\<open>play_next\<close> one after the other; a call that does not return
  ends the sequence.\<close>

fun play_next_times :: "nat \<Rightarrow> (string \<Rightarrow> bool) \<Rightarrow> GuildState \<Rightarrow> GuildState outcome" where
  "play_next_times 0 ffmpeg_ok g = Returns g"
| "play_next_times (Suc n) ffmpeg_ok g =
     (case play_next ffmpeg_ok g of
        Returns g' \<Rightarrow> play_next_times n ffmpeg_ok g'
      | Raises e g' \<Rightarrow> Raises e g'
      | Blocked g' \<Rightarrow> Blocked g')"

section \<open>Strings\<close>

text \<open>
  A string of the model is the UTF-8 encoding of a string of the program: ASCII
  characters are single bytes below 128, every other character is a sequence of bytes
  from 128 on. A list of bytes that is no UTF-8 encoding, such as the single byte 0xA0,
  stands for no string of the program.

  \<^verbatim>\<open>str.lower()\<close> is modelled on the letters \<open>A\<close> to \<open>Z\<close>. The program uses it only to
  look for the ASCII texts \<^verbatim>\<open>drm\<close>, \<^verbatim>\<open>sign in to confirm\<close>, \<^verbatim>\<open>http\<close> and
  \<^verbatim>\<open>open.spotify.com/\<close> in the result. Outside ASCII, exactly two characters have a
  lower case with an ASCII letter in it: U+212A gives \<open>k\<close>, which is in none of these
  texts, and U+0130 gives \<open>i\<close> followed by U+0307, and in none of these texts is \<open>i\<close> the
  last letter. So these tests come out as in the program.
\<close>

definition lower_char :: "char \<Rightarrow> char" where
  "lower_char c =
     (case map_of (zip ''ABCDEFGHIJKLMNOPQRSTUVWXYZ'' ''abcdefghijklmnopqrstuvwxyz'') c of
        Some d \<Rightarrow> d
      | None \<Rightarrow> c)"

definition lower :: "string \<Rightarrow> string" where
  "lower s = map lower_char s"

text \<open>
  \<^verbatim>\<open>str.strip()\<close> removes from both ends the characters for which \<^verbatim>\<open>str.isspace()\<close>
  holds. There are 29 of them: U+0009 to U+000D, U+001C to U+0020, U+0085, U+00A0,
  U+1680, U+2000 to U+200A, U+2028, U+2029, U+202F, U+205F and U+3000. \<open>whitespace\<close>
  lists their encodings.
\<close>

definition whitespace :: "string list" where
  "whitespace =
     [[CHR 0x09], [CHR 0x0A], [CHR 0x0B], [CHR 0x0C], [CHR 0x0D],
      [CHR 0x1C], [CHR 0x1D], [CHR 0x1E], [CHR 0x1F], [CHR 0x20],
      [CHR 0xC2, CHR 0x85], [CHR 0xC2, CHR 0xA0], [CHR 0xE1, CHR 0x9A, CHR 0x80],
      [CHR 0xE2, CHR 0x80, CHR 0x80], [CHR 0xE2, CHR 0x80, CHR 0x81], [CHR 0xE2, CHR 0x80, CHR 0x82],
      [CHR 0xE2, CHR 0x80, CHR 0x83], [CHR 0xE2, CHR 0x80, CHR 0x84], [CHR 0xE2, CHR 0x80, CHR 0x85],
      [CHR 0xE2, CHR 0x80, CHR 0x86], [CHR 0xE2, CHR 0x80, CHR 0x87], [CHR 0xE2, CHR 0x80, CHR 0x88],
      [CHR 0xE2, CHR 0x80, CHR 0x89], [CHR 0xE2, CHR 0x80, CHR 0x8A], [CHR 0xE2, CHR 0x80, CHR 0xA8],
      [CHR 0xE2, CHR 0x80, CHR 0xA9], [CHR 0xE2, CHR 0x80, CHR 0xAF], [CHR 0xE2, CHR 0x81, CHR 0x9F],
      [CHR 0xE3, CHR 0x80, CHR 0x80]]"

text \<open>
  \<open>lstrip ws s\<close> takes the members of \<open>ws\<close> off the front of \<open>s\<close> as long as one of them
  is there. The end of a string is the front of its reverse, where the encodings stand
  reversed.
\<close>

function lstrip :: "string list \<Rightarrow> string \<Rightarrow> string" where
  "lstrip ws s =
     (case List.find (\<lambda>w. w \<noteq> [] \<and> prefix w s) ws of
        None \<Rightarrow> s
      | Some w \<Rightarrow> lstrip ws (drop (length w) s))"
  by pat_completeness auto
termination
proof (relation "measure (\<lambda>(ws, s). length s)")
  show "wf (measure (\<lambda>(ws, s). length s))" by simp
next
  fix ws :: "string list" and s w :: string
  assume "List.find (\<lambda>w. w \<noteq> [] \<and> prefix w s) ws = Some w"
  then have "w \<noteq> []" "prefix w s" by (auto simp: find_Some_iff)
  then obtain c cs r where "w = c # cs" "s = (c # cs) @ r"
    by (cases w) (auto simp: prefix_def)
  then show "((ws, drop (length w) s), (ws, s)) \<in> measure (\<lambda>(ws, s). length s)" by simp
qed

declare lstrip.simps [simp del]

definition strip :: "string \<Rightarrow> string" where
  "strip s = rev (lstrip (map rev whitespace) (rev (lstrip whitespace s)))"

text \<open>\<^verbatim>\<open>pat in s\<close> on strings.\<close>

fun contains :: "string \<Rightarrow> string \<Rightarrow> bool" where
  "contains pat [] \<longleftrightarrow> pat = []"
| "contains pat (c # cs) \<longleftrightarrow> prefix pat (c # cs) \<or> contains pat cs"

fun join :: "string \<Rightarrow> string list \<Rightarrow> string" where
  "join sep [] = []"
| "join sep [x] = x"
| "join sep (x # y # ys) = x @ sep @ join sep (y # ys)"

section \<open>Song resolver\<close>

datatype ydl_options = YDL_OPTIONS | SC_YDL_OPTIONS

text \<open>
  What \<^verbatim>\<open>extract_song\<close> reads of the dictionary \<^verbatim>\<open>extract_info\<close> returns: the keys
  \<^verbatim>\<open>url\<close>, \<^verbatim>\<open>title\<close> and \<^verbatim>\<open>webpage_url\<close> (\<open>None\<close> for a missing key), or the
  list under \<^verbatim>\<open>entries\<close>, where \<open>None\<close> is an entry that is not truthy.
\<close>

record Info =
  info_url :: "string option"
  info_title :: "string option"
  info_webpage_url :: "string option"

datatype ydl_result = Video Info | Entries "Info option list"

text \<open>
  \<^verbatim>\<open>_extract_with_options\<close>; \<open>ydl\<close> is \<^verbatim>\<open>YoutubeDL(options).extract_info(query, download=False)\<close>.
\<close>

definition extract_with_options ::
  "(ydl_options \<Rightarrow> string \<Rightarrow> exn + ydl_result) \<Rightarrow> string \<Rightarrow> ydl_options \<Rightarrow> exn + Info" where
  "extract_with_options ydl local_query options =
     (case ydl options local_query of
        Inr (Video info) \<Rightarrow> Inr info
      | Inr (Entries es) \<Rightarrow>
          (case List.map_filter (\<lambda>e. e) es of
             [] \<Rightarrow> Inl (ValueError ''No results found.'')
           | info # _ \<Rightarrow> Inr info)
      | Inl (DownloadError m) \<Rightarrow>
          (let msg = lower m in
           if contains ''drm'' msg
           then Inl (RuntimeError ''This video is DRM-protected and cannot be played.'')
           else if contains ''sign in to confirm'' msg
           then Inl (RuntimeError ''YouTube blocked this request. Try another video.'')
           else Inl (RuntimeError ''Failed to fetch audio from YouTube.''))
      | Inl exc \<Rightarrow> Inl exc)"

text \<open>
  \<^verbatim>\<open>_youtube_oembed_title\<close>; \<open>oembed url\<close> is the \<^verbatim>\<open>title\<close> of the payload the oEmbed
  endpoint returns for \<open>url\<close>, \<open>None\<close> when the request fails or the title is no string.
\<close>

definition youtube_oembed_title :: "(string \<Rightarrow> string option) \<Rightarrow> string \<Rightarrow> string option" where
  "youtube_oembed_title oembed url =
     (if \<not> contains ''youtube.com'' url \<and> \<not> contains ''youtu.be'' url then None
      else (case oembed url of
              None \<Rightarrow> None
            | Some t \<Rightarrow> if strip t \<noteq> [] then Some (strip t) else None))"

text \<open>The secondary query of \<^verbatim>\<open>_extract\<close>, and \<^verbatim>\<open>_extract\<close> itself (\<open>extract\<close> is a
  keyword, hence the prime).\<close>

definition sc_query :: "(string \<Rightarrow> string option) \<Rightarrow> string \<Rightarrow> string" where
  "sc_query oembed query =
     (if prefix ''http'' (lower query)
      then (case youtube_oembed_title oembed query of
              Some t \<Rightarrow> ''scsearch1:'' @ t
            | None \<Rightarrow> ''scsearch1:'' @ query)
      else ''scsearch1:'' @ query)"

definition extract' ::
  "(ydl_options \<Rightarrow> string \<Rightarrow> exn + ydl_result) \<Rightarrow> (string \<Rightarrow> string option) \<Rightarrow> string \<Rightarrow> exn + Info" where
  "extract' ydl oembed query =
     (case extract_with_options ydl query YDL_OPTIONS of
        Inr info \<Rightarrow> Inr info
      | Inl yt_exc \<Rightarrow>
          (case extract_with_options ydl (sc_query oembed query) SC_YDL_OPTIONS of
             Inr info \<Rightarrow> Inr info
           | Inl _ \<Rightarrow> Inl yt_exc))"

definition extract_song ::
  "(ydl_options \<Rightarrow> string \<Rightarrow> exn + ydl_result) \<Rightarrow> (string \<Rightarrow> string option) \<Rightarrow> string \<Rightarrow> exn + Song" where
  "extract_song ydl oembed query =
     (case extract' ydl oembed query of
        Inl e \<Rightarrow> Inl e
      | Inr info \<Rightarrow>
          (case info_url info of
             None \<Rightarrow> Inl (ValueError ''Could not get audio stream URL.'')
           | Some u \<Rightarrow>
               if u = [] then Inl (ValueError ''Could not get audio stream URL.'')
               else Inr \<lparr>title = (case info_title info of None \<Rightarrow> ''Unknown title'' | Some t \<Rightarrow> t),
                         stream_url = u,
                         webpage_url = (case info_webpage_url info of None \<Rightarrow> query | Some w \<Rightarrow> w),
                         requester_id = 0\<rparr>))"

section \<open>Catalog expander\<close>

text \<open>
  A track of the catalog as \<^verbatim>\<open>_to_query\<close> reads it: the value under \<^verbatim>\<open>name\<close> and, for
  each artist, the value under its \<^verbatim>\<open>name\<close> (\<open>None\<close> for a missing or null value).
\<close>

record Track =
  name :: "string option"
  artists :: "string option list"

record 'a Page =
  items :: "'a list"
  next_page :: "string option"

record Spotify =
  track :: "string \<Rightarrow> exn + Track option"
  album_tracks :: "string \<Rightarrow> nat \<Rightarrow> nat \<Rightarrow> exn + (Track option) Page"
  playlist_items :: "string \<Rightarrow> nat \<Rightarrow> nat \<Rightarrow> exn + (Track option option) Page"

definition to_query :: "Track option \<Rightarrow> string option" where
  "to_query t =
     (let nm = (case t of None \<Rightarrow> None | Some tr \<Rightarrow> name tr);
          ars = (case t of None \<Rightarrow> [] | Some tr \<Rightarrow> artists tr);
          artist_names = strip (join '', '' (filter (\<lambda>n. n \<noteq> []) (List.map_filter (\<lambda>a. a) ars)))
      in (case nm of
            None \<Rightarrow> None
          | Some n \<Rightarrow> if n = [] then None else Some (strip (n @ '' '' @ artist_names))))"

definition is_alnum :: "char \<Rightarrow> bool" where
  "is_alnum c \<longleftrightarrow> c \<in> set ''ABCDEFGHIJKLMNOPQRSTUVWXYZabcdefghijklmnopqrstuvwxyz0123456789''"

fun strip_prefix :: "string \<Rightarrow> string \<Rightarrow> string option" where
  "strip_prefix [] s = Some s"
| "strip_prefix (p # ps) [] = None"
| "strip_prefix (p # ps) (c # cs) = (if p = c then strip_prefix ps cs else None)"

text \<open>
  The regular expression \<^verbatim>\<open>open\.spotify\.com/(track|album|playlist)/([A-Za-z0-9]+)\<close>
  matched at the start of \<open>s\<close>, and \<^verbatim>\<open>re.search\<close>, which takes the leftmost match.
\<close>

definition match_kind :: "string \<Rightarrow> string \<Rightarrow> (string \<times> string) option" where
  "match_kind kind r =
     (case strip_prefix (kind @ ''/'') r of
        None \<Rightarrow> None
      | Some r2 \<Rightarrow> (let rid = takeWhile is_alnum r2 in if rid = [] then None else Some (kind, rid)))"

definition match_here :: "string \<Rightarrow> (string \<times> string) option" where
  "match_here s =
     (case strip_prefix ''open.spotify.com/'' s of
        None \<Rightarrow> None
      | Some r \<Rightarrow>
          (case match_kind ''track'' r of
             Some m \<Rightarrow> Some m
           | None \<Rightarrow>
               (case match_kind ''album'' r of
                  Some m \<Rightarrow> Some m
                | None \<Rightarrow> match_kind ''playlist'' r)))"

fun re_search :: "string \<Rightarrow> (string \<times> string) option" where
  "re_search [] = match_here []"
| "re_search (c # cs) = (case match_here (c # cs) of Some m \<Rightarrow> Some m | None \<Rightarrow> re_search cs)"

definition parse_spotify_url :: "string \<Rightarrow> exn + string \<times> string" where
  "parse_spotify_url url =
     (case re_search url of
        None \<Rightarrow> Inl (RuntimeError ''Unsupported Spotify URL. Use track, album, or playlist links.'')
      | Some m \<Rightarrow> Inr m)"

text \<open>
  \<^verbatim>\<open>get_spotify_client\<close>: the cached client, or a new one when both credentials are set.
  \<open>mk\<close> stands for \<^verbatim>\<open>spotipy.Spotify(auth_manager=credentials)\<close>.
\<close>

definition get_spotify_client ::
  "Spotify option \<Rightarrow> string option \<Rightarrow> string option \<Rightarrow> (string \<Rightarrow> string \<Rightarrow> Spotify) \<Rightarrow> exn + Spotify" where
  "get_spotify_client spotify_client client_id client_secret mk =
     (case spotify_client of
        Some sp \<Rightarrow> Inr sp
      | None \<Rightarrow>
          (case (client_id, client_secret) of
             (Some cid, Some sec) \<Rightarrow>
               if cid = [] \<or> sec = []
               then Inl (RuntimeError ''Spotify is not configured. Set SPOTIFY_CLIENT_ID and SPOTIFY_CLIENT_SECRET in .env.'')
               else Inr (mk cid sec)
           | _ \<Rightarrow> Inl (RuntimeError ''Spotify is not configured. Set SPOTIFY_CLIENT_ID and SPOTIFY_CLIENT_SECRET in .env.'')))"

text \<open>The body of \<^verbatim>\<open>if query: queries.append(query)\<close>.\<close>

definition add_query :: "string option \<Rightarrow> string list \<Rightarrow> string list" where
  "add_query q queries =
     (case q of None \<Rightarrow> queries | Some s \<Rightarrow> if s = [] then queries else queries @ [s])"

text \<open>The \<^verbatim>\<open>for\<close> loop over the items of one page, with its \<^verbatim>\<open>break\<close> at the cap.\<close>

fun add_tracks :: "Track option list \<Rightarrow> string list \<Rightarrow> string list" where
  "add_tracks [] queries = queries"
| "add_tracks (t # rest) queries =
     (let queries' = add_query (to_query t) queries
      in if length queries' \<ge> MAX_SPOTIFY_TRACKS then queries' else add_tracks rest queries')"

text \<open>
  The two \<^verbatim>\<open>while\<close> loops of \<^verbatim>\<open>spotify_queries_from_url\<close> differ in the page size and
  in where an item keeps its track; \<open>fetch offset\<close> is the page request with the tracks
  of its items, \<open>page_size\<close> the step of the offset. Nothing in the code bounds the number
  of pages a catalog may serve, so the loop is a partial function.
\<close>

partial_function (option) collect_pages ::
  "(nat \<Rightarrow> exn + (Track option) Page) \<Rightarrow> nat \<Rightarrow> nat \<Rightarrow> string list \<Rightarrow> (exn + string list) option" where
  "collect_pages fetch page_size offset queries =
     (if length queries < MAX_SPOTIFY_TRACKS then
        (case fetch offset of
           Inl e \<Rightarrow> Some (Inl e)
         | Inr page \<Rightarrow>
             if items page = [] then Some (Inr queries)
             else
               (let queries' = add_tracks (items page) queries
                in if next_page page = None \<or> next_page page = Some []
                   then Some (Inr queries')
                   else collect_pages fetch page_size (offset + page_size) queries'))
      else Some (Inr queries))"

text \<open>\<^verbatim>\<open>(item or {}).get("track")\<close> for every item of a playlist page.\<close>

definition item_tracks :: "(Track option option) Page \<Rightarrow> (Track option) Page" where
  "item_tracks page = \<lparr>items = map (\<lambda>item. case item of None \<Rightarrow> None | Some t \<Rightarrow> t) (items page),
     next_page = next_page page\<rparr>"

definition spotify_queries_from_url :: "exn + Spotify \<Rightarrow> string \<Rightarrow> (exn + string list) option" where
  "spotify_queries_from_url client url =
     (case client of
        Inl e \<Rightarrow> Some (Inl e)
      | Inr sp \<Rightarrow>
          (case parse_spotify_url url of
             Inl e \<Rightarrow> Some (Inl e)
           | Inr (kind, resource_id) \<Rightarrow>
               (case (if kind = ''track'' then
                        (case track sp resource_id of
                           Inl e \<Rightarrow> Some (Inl e)
                         | Inr t \<Rightarrow> Some (Inr (add_query (to_query t) [])))
                      else if kind = ''album'' then
                        collect_pages (\<lambda>offset. album_tracks sp resource_id 50 offset) 50 0 []
                      else
                        collect_pages
                          (\<lambda>offset. map_sum (\<lambda>e. e) item_tracks (playlist_items sp resource_id 100 offset))
                          100 0 []) of
                  None \<Rightarrow> None
                | Some (Inl e) \<Rightarrow> Some (Inl e)
                | Some (Inr queries) \<Rightarrow>
                    if queries = []
                    then Some (Inl (RuntimeError ''No playable tracks found in that Spotify link.''))
                    else Some (Inr queries))))"

section \<open>Voice connection manager\<close>

text \<open>
  \<^verbatim>\<open>interaction.user\<close> is absent, a plain user, or a member of the guild with the voice
  channel the member is in (\<open>None\<close> when \<^verbatim>\<open>user.voice\<close> or its channel is missing).
\<close>

datatype user = NoUser | PlainUser int | GuildMember int "VoiceChannel option"

fun user_id :: "user \<Rightarrow> int option" where
  "user_id NoUser = None"
| "user_id (PlainUser uid) = Some uid"
| "user_id (GuildMember uid ch) = Some uid"

record Interaction =
  in_guild :: bool
  user :: user

text \<open>
  \<^verbatim>\<open>_connect_with_retry\<close> over the attempts left; \<open>connect k ch\<close> is the outcome of attempt
  \<open>k\<close> of \<^verbatim>\<open>voice_channel.connect(timeout=20.0, reconnect=True)\<close>. A client the library
  returns is the guild's voice client from then on. The pauses between attempts do not
  move the clock of the model.
\<close>

fun connect_with_retry ::
  "(nat \<Rightarrow> VoiceChannel \<Rightarrow> exn + VoiceClient) \<Rightarrow> VoiceChannel \<Rightarrow> nat list \<Rightarrow> exn option \<Rightarrow>
   GuildState \<Rightarrow> (exn + VoiceClient) \<times> GuildState" where
  "connect_with_retry connect ch [] last_exc g =
     (Inl (RuntimeError (''Voice connection failed: '' @
        (case last_exc of None \<Rightarrow> ''None'' | Some e \<Rightarrow> str_exn e))), g)"
| "connect_with_retry connect ch (k # ks) last_exc g =
     (case connect k ch of
        Inr vc \<Rightarrow>
          (let g' = g\<lparr>voice_client := Some vc\<rparr>
           in if is_connected vc then (Inr vc, g') else connect_with_retry connect ch ks last_exc g')
      | Inl exc \<Rightarrow> connect_with_retry connect ch ks (Some exc) g)"

definition ensure_voice ::
  "(nat \<Rightarrow> VoiceChannel \<Rightarrow> exn + VoiceClient) \<Rightarrow> Interaction \<Rightarrow> GuildState \<Rightarrow>
   (exn + VoiceClient) \<times> GuildState" where
  "ensure_voice connect i g =
     (if \<not> in_guild i then (Inl (RuntimeError ''This command can only be used in a server.''), g)
      else
        (case user i of
           NoUser \<Rightarrow> (Inl (RuntimeError ''Could not resolve your member information.''), g)
         | PlainUser uid \<Rightarrow> (Inl (RuntimeError ''Could not resolve your member information.''), g)
         | GuildMember uid None \<Rightarrow> (Inl (RuntimeError ''Join a voice channel first.''), g)
         | GuildMember uid (Some voice_channel) \<Rightarrow>
             (case voice_client g of
                None \<Rightarrow>
                  (case connect_with_retry connect voice_channel [0, 1, 2] None g of
                     (Inl e, g1) \<Rightarrow> (Inl e, g1)
                   | (Inr vc, g1) \<Rightarrow>
                       if \<not> is_connected vc
                       then (Inl (RuntimeError ''I could not stay connected to voice.''), g1)
                       else (Inr vc, g1))
              | Some vc0 \<Rightarrow>
                  if \<not> is_connected vc0 then
                    (case connect_with_retry connect voice_channel [0, 1, 2] None (vc_disconnect g) of
                       (Inl e, g1) \<Rightarrow> (Inl e, g1)
                     | (Inr vc, g1) \<Rightarrow>
                         if \<not> is_connected vc
                         then (Inl (RuntimeError ''Voice connection failed.''), g1)
                         else (Inr vc, g1))
                  else if channel_id (channel vc0) \<noteq> channel_id voice_channel then
                    (if is_playing vc0 \<or> is_paused vc0
                     then (Inl (RuntimeError (''I'm already active in **'' @ channel_name (channel vc0) @
                             ''**. Join that channel or use /leave first.'')), g)
                     else (let vc = vc0\<lparr>channel := voice_channel\<rparr>
                           in (Inr vc, g\<lparr>voice_client := Some vc\<rparr>)))
                  else (Inr vc0, g))))"

section \<open>Command handlers\<close>

text \<open>
  What a handler sends back. \<open>ErrorMessage\<close> carries the exception whose text is sent;
  the other constructors carry what the f-strings of \<^verbatim>\<open>play\<close> print: the song, or the
  numbers of tracks added and failed.
\<close>

datatype reply =
    Message string
  | ErrorMessage exn
  | NowPlayingMessage Song
  | QueuedMessage Song
  | SpotifyNowPlayingMessage Song nat nat
  | SpotifyQueuedMessage nat nat

text \<open>
  What the handlers take from the outside world: the extraction library, the oEmbed
  endpoint, the FFmpeg source constructor, the voice gateway and the catalog client
  with the configuration \<^verbatim>\<open>get_spotify_client\<close> reads.
\<close>

record Env =
  ydl :: "ydl_options \<Rightarrow> string \<Rightarrow> exn + ydl_result"
  oembed :: "string \<Rightarrow> string option"
  ffmpeg_ok :: "string \<Rightarrow> bool"
  connect :: "nat \<Rightarrow> VoiceChannel \<Rightarrow> exn + VoiceClient"
  spotify_client :: "Spotify option"
  SPOTIFY_CLIENT_ID :: "string option"
  SPOTIFY_CLIENT_SECRET :: "string option"
  new_spotify :: "string \<Rightarrow> string \<Rightarrow> Spotify"

text \<open>The \<^verbatim>\<open>join\<close> command (\<open>join\<close> is the string operation above).\<close>

definition join_cmd :: "Env \<Rightarrow> Interaction \<Rightarrow> GuildState \<Rightarrow> reply \<times> GuildState" where
  "join_cmd env i g =
     (case ensure_voice (connect env) i g of
        (Inl e, g1) \<Rightarrow> (ErrorMessage e, g1)
      | (Inr vc, g1) \<Rightarrow>
          if \<not> is_connected vc then (ErrorMessage (RuntimeError ''I could not connect to voice.''), g1)
          else (Message ''Joined your voice channel.'', schedule_idle_disconnect g1))"

definition set_requester :: "user \<Rightarrow> Song \<Rightarrow> Song" where
  "set_requester u song = (case user_id u of None \<Rightarrow> song | Some uid \<Rightarrow> song\<lparr>requester_id := uid\<rparr>)"

text \<open>
  One round of the loop over \<^verbatim>\<open>spotify_queries\<close> in \<^verbatim>\<open>play\<close>, on the loop's variables
  \<open>added\<close>, \<open>failed\<close>, \<open>first_title\<close> and the guild. Each round awaits
  \<^verbatim>\<open>extract_song\<close>, so other coroutines of the bot run between two rounds.
\<close>

definition spotify_step ::
  "Env \<Rightarrow> user \<Rightarrow> string \<Rightarrow> nat \<times> nat \<times> string option \<times> GuildState \<Rightarrow>
   nat \<times> nat \<times> string option \<times> GuildState" where
  "spotify_step env u spotify_query acc =
     (case acc of (added, failed, first_title, g) \<Rightarrow>
        (case extract_song (ydl env) (oembed env) spotify_query of
           Inr song0 \<Rightarrow>
             (let song = set_requester u song0;
                  first_title' = (if first_title = None \<or> first_title = Some [] then Some (title song)
                                  else first_title)
              in (added + 1, failed, first_title', q_append song g))
         | Inl e \<Rightarrow> (added, failed + 1, first_title, g)))"

definition spotify_loop ::
  "Env \<Rightarrow> user \<Rightarrow> string list \<Rightarrow> GuildState \<Rightarrow> nat \<times> nat \<times> string option \<times> GuildState" where
  "spotify_loop env u spotify_queries g = fold (spotify_step env u) spotify_queries (0, 0, None, g)"

definition spotify_reply :: "nat \<Rightarrow> nat \<Rightarrow> string option \<Rightarrow> GuildState \<Rightarrow> reply" where
  "spotify_reply added failed first_title g =
     (case (now_playing g, first_title) of
        (Some np, Some ft) \<Rightarrow>
          if ft \<noteq> [] \<and> title np = ft then SpotifyNowPlayingMessage np (added - 1) failed
          else SpotifyQueuedMessage added failed
      | _ \<Rightarrow> SpotifyQueuedMessage added failed)"

text \<open>
  \<^verbatim>\<open>play\<close>. The reply is \<open>None\<close> when the handler waits for ever and never answers.
\<close>

definition play :: "Env \<Rightarrow> Interaction \<Rightarrow> string \<Rightarrow> GuildState \<Rightarrow> reply option \<times> GuildState" where
  "play env i query g =
     (case ensure_voice (connect env) i g of
        (Inl e, g1) \<Rightarrow> (Some (ErrorMessage e), g1)
      | (Inr vc, g1) \<Rightarrow>
          if \<not> is_connected vc
          then (Some (ErrorMessage (RuntimeError ''Voice connection failed. I did not queue your song.'')), g1)
          else
            (let g2 = cancel_idle_disconnect g1 in
             if contains ''open.spotify.com/'' (lower query) then
               (case spotify_queries_from_url
                       (get_spotify_client (spotify_client env) (SPOTIFY_CLIENT_ID env)
                          (SPOTIFY_CLIENT_SECRET env) (new_spotify env)) query of
                  None \<Rightarrow> (None, g2)
                | Some (Inl e) \<Rightarrow> (Some (ErrorMessage e), g2)
                | Some (Inr spotify_queries) \<Rightarrow>
                    (case spotify_loop env (user i) spotify_queries g2 of
                       (added, failed, first_title, g3) \<Rightarrow>
                         if added = 0
                         then (Some (ErrorMessage
                                 (RuntimeError ''Could not resolve any Spotify tracks to playable sources.'')), g3)
                         else
                           (case play_next (ffmpeg_ok env) g3 of
                              Returns g4 \<Rightarrow> (Some (spotify_reply added failed first_title g4), g4)
                            | Raises e g4 \<Rightarrow> (Some (ErrorMessage e), g4)
                            | Blocked g4 \<Rightarrow> (None, g4))))
             else
               (case extract_song (ydl env) (oembed env) query of
                  Inl e \<Rightarrow> (Some (ErrorMessage e), g2)
                | Inr song0 \<Rightarrow>
                    (let song = set_requester (user i) song0;
                         g3 = q_append song g2
                     in (case play_next (ffmpeg_ok env) g3 of
                           Returns g4 \<Rightarrow>
                             (Some (if (case now_playing g4 of
                                          None \<Rightarrow> False
                                        | Some np \<Rightarrow> title np = title song)
                                    then NowPlayingMessage song else QueuedMessage song), g4)
                         | Raises e g4 \<Rightarrow> (Some (ErrorMessage e), g4)
                         | Blocked g4 \<Rightarrow> (None, g4))))))"

text \<open>
  \<^verbatim>\<open>skip\<close>. Every branch of the handler ends in
  \<^verbatim>\<open>await interaction.response.send_message(...)\<close>, and the handler returns when the
  reply is sent. \<open>skip_steps\<close> is what the handler itself does up to that await. \<open>skip\<close> is
  the handler up to its return: \<open>during\<close> is what the other coroutines of the loop do to
  the guild while the handler waits for the reply; the \<^verbatim>\<open>play_next\<close> that the player
  thread posts after \<^verbatim>\<open>vc.stop()\<close> is one of them.
\<close>

definition skip_steps :: "Interaction \<Rightarrow> GuildState \<Rightarrow> reply \<times> GuildState" where
  "skip_steps i g =
     (if \<not> in_guild i then (Message ''I'm not connected to voice.'', g)
      else
        (case voice_client g of
           None \<Rightarrow> (Message ''I'm not connected to voice.'', g)
         | Some vc \<Rightarrow>
             if is_playing vc \<or> is_paused vc then (Message ''Skipped.'', vc_stop g)
             else (Message ''Nothing is playing.'', g)))"

definition skip ::
  "(GuildState \<Rightarrow> GuildState) \<Rightarrow> Interaction \<Rightarrow> GuildState \<Rightarrow> reply \<times> GuildState" where
  "skip during i g = (case skip_steps i g of (r, g') \<Rightarrow> (r, during g'))"

definition stop :: "Interaction \<Rightarrow> GuildState \<Rightarrow> reply \<times> GuildState" where
  "stop i g =
     (if \<not> in_guild i then (Message ''This command can only be used in a server.'', g)
      else
        (let g1 = q_clear g;
             g2 = g1\<lparr>now_playing := None\<rparr>;
             g3 = (case voice_client g2 of
                     None \<Rightarrow> g2
                   | Some vc \<Rightarrow> if is_playing vc \<or> is_paused vc then vc_stop g2 else g2);
             g4 = (case voice_client g3 of
                     None \<Rightarrow> g3
                   | Some vc \<Rightarrow> if is_connected vc then schedule_idle_disconnect g3 else g3)
         in (Message ''Stopped playback and cleared the queue.'', g4)))"

definition leave :: "Interaction \<Rightarrow> GuildState \<Rightarrow> reply \<times> GuildState" where
  "leave i g =
     (if \<not> in_guild i then (Message ''This command can only be used in a server.'', g)
      else
        (let g1 = q_clear g;
             g2 = g1\<lparr>now_playing := None\<rparr>;
             g3 = cancel_idle_disconnect g2
         in (case voice_client g of
               Some vc \<Rightarrow> (Message ''Disconnected and cleared queue.'', vc_disconnect g3)
             | None \<Rightarrow> (Message ''I'm not connected to voice.'', g3))))"

section \<open>Runs of the bot in one guild\<close>

text \<open>
  The bot runs on one event loop: a handler runs until it awaits, and what it awaits is
  the outside world (resolver, gateway, catalog, the reply), not the state of the guild.
  A run is taken as a sequence of events, each a handler carried through with the answers
  the outside world gives it, a completion callback of the player thread, or time
  passing. The one place where the order of awaits inside a handler is looked at is the
  loop of \<^verbatim>\<open>play\<close> over a catalog batch (\<open>spotify_step\<close>). What the loop runs while a
  handler waits for its reply to be sent are the events that follow the handler in the
  run, so in a run nothing happens during the last await of \<^verbatim>\<open>skip\<close>. The \<^verbatim>\<open>queue\<close>
  command only reads the state and is left out.
\<close>

datatype event =
    Join Env Interaction
  | Play Env Interaction string
  | Skip Interaction
  | Stop Interaction
  | Leave Interaction
  | AfterPlayback "string \<Rightarrow> bool"
  | Elapse nat

fun step :: "event \<Rightarrow> GuildState \<Rightarrow> GuildState" where
  "step (Join env i) g = snd (join_cmd env i g)"
| "step (Play env i query) g = snd (play env i query g)"
| "step (Skip i) g = snd (skip (\<lambda>h. h) i g)"
| "step (Stop i) g = snd (stop i g)"
| "step (Leave i) g = snd (leave i g)"
| "step (AfterPlayback ok) g = state_of (after_playback ok g)"
| "step (Elapse dt) g = elapse dt g"

definition run :: "event list \<Rightarrow> GuildState \<Rightarrow> GuildState" where
  "run evs g = fold step evs g"

fun clears_queue :: "event \<Rightarrow> bool" where
  "clears_queue (Stop i) = True"
| "clears_queue (Leave i) = True"
| "clears_queue e = False"

text \<open>The songs appended to the queue, and the songs made \<^verbatim>\<open>now_playing\<close>, in order.\<close>

fun enqueued :: "action list \<Rightarrow> Song list" where
  "enqueued [] = []"
| "enqueued (QAppend song held # t) = song # enqueued t"
| "enqueued (a # t) = enqueued t"

fun started :: "action list \<Rightarrow> Song list" where
  "started [] = []"
| "started (NowPlaying song # t) = song # started t"
| "started (a # t) = started t"

fun disconnects :: "action list \<Rightarrow> nat" where
  "disconnects [] = 0"
| "disconnects (Disconnect # t) = Suc (disconnects t)"
| "disconnects (a # t) = disconnects t"

text \<open>The idle task the player refers to is still asleep: the scheduler is armed.\<close>

definition armed :: "GuildState \<Rightarrow> bool" where
  "armed g =
     (case idle_task g of
        None \<Rightarrow> False
      | Some k \<Rightarrow> k < length (tasks g) \<and> status (tasks g ! k) = Sleeping)"

text \<open>
  The code keeps every idle task that is still asleep in \<^verbatim>\<open>player.idle_task\<close>: it drops
  its reference only in \<^verbatim>\<open>cancel_idle_disconnect\<close>, after cancelling the task.
\<close>

definition tasks_ok :: "GuildState \<Rightarrow> bool" where
  "tasks_ok g =
     list_all (\<lambda>(k, t). status t = Sleeping \<longrightarrow> idle_task g = Some k) (enumerate 0 (tasks g))"

text \<open>
  The condition under which a waking idle task does not disconnect: no voice client, or
  one that is not connected, is playing or is paused, or a queue that is not empty.
\<close>

definition busy :: "GuildState \<Rightarrow> bool" where
  "busy g \<longleftrightarrow> (case voice_client g of
      None \<Rightarrow> True
    | Some vc \<Rightarrow> \<not> (is_connected vc \<and> \<not> is_playing vc \<and> \<not> is_paused vc \<and> queue g = []))"

text \<open>
  First in, first out, read off the record of actions: the songs made \<^verbatim>\<open>now_playing\<close> so
  far, followed by the songs still queued, are the songs appended so far, in the order
  of their appends.
\<close>

definition fifo :: "GuildState \<Rightarrow> bool" where
  "fifo g \<longleftrightarrow> started (trace g) @ queue g = enqueued (trace g)"

text \<open>Every queue mutation among the actions happened with \<^verbatim>\<open>player.lock\<close> held.\<close>

fun locked_mutations :: "action list \<Rightarrow> bool" where
  "locked_mutations [] \<longleftrightarrow> True"
| "locked_mutations (QAppend song held # t) \<longleftrightarrow> held \<and> locked_mutations t"
| "locked_mutations (QPopleft song held # t) \<longleftrightarrow> held \<and> locked_mutations t"
| "locked_mutations (QClear held # t) \<longleftrightarrow> held \<and> locked_mutations t"
| "locked_mutations (a # t) \<longleftrightarrow> locked_mutations t"

section \<open>A catalog served page by page\<close>

text \<open>
  The catalog API is outside the repository. A catalog that holds the list \<open>entries\<close>
  answers a page request as the API documents it: \<open>limit\<close> items from \<open>offset\<close> on, and a
  next-page marker as long as entries remain after the page.
\<close>

definition serve_page :: "'a list \<Rightarrow> nat \<Rightarrow> nat \<Rightarrow> 'a Page" where
  "serve_page entries limit offset =
     \<lparr>items = take limit (drop offset entries),
      next_page = (if offset + limit < length entries then Some ''next'' else None)\<rparr>"

definition catalog_server :: "Track option list \<Rightarrow> Spotify" where
  "catalog_server entries =
     \<lparr>track = (\<lambda>resource_id. Inr (case entries of [] \<Rightarrow> None | t # rest \<Rightarrow> t)),
      album_tracks = (\<lambda>resource_id limit offset. Inr (serve_page entries limit offset)),
      playlist_items = (\<lambda>resource_id limit offset. Inr (serve_page (map Some entries) limit offset))\<rparr>"

text \<open>The queries of the entries that have a usable title, in catalog order.\<close>

definition usable_queries :: "Track option list \<Rightarrow> string list" where
  "usable_queries entries = foldl (\<lambda>queries t. add_query (to_query t) queries) [] entries"

section \<open>Example values\<close>

definition song_a :: Song where
  "song_a = \<lparr>title = ''a'', stream_url = ''https://cdn.example/a'',
     webpage_url = ''https://www.youtube.com/watch?v=a'', requester_id = 7\<rparr>"

definition song_b :: Song where
  "song_b = \<lparr>title = ''b'', stream_url = ''https://cdn.example/b'',
     webpage_url = ''https://www.youtube.com/watch?v=b'', requester_id = 7\<rparr>"

definition song_c :: Song where
  "song_c = \<lparr>title = ''c'', stream_url = ''https://cdn.example/c'',
     webpage_url = ''https://www.youtube.com/watch?v=c'', requester_id = 7\<rparr>"

definition chan_x :: VoiceChannel where
  "chan_x = \<lparr>channel_id = 10, channel_name = ''X''\<rparr>"

definition chan_y :: VoiceChannel where
  "chan_y = \<lparr>channel_id = 20, channel_name = ''Y''\<rparr>"

definition idle_vc :: VoiceClient where
  "idle_vc = \<lparr>channel = chan_x, is_connected = True, is_playing = False, is_paused = False\<rparr>"

definition playing_vc :: VoiceClient where
  "playing_vc = \<lparr>channel = chan_x, is_connected = True, is_playing = True, is_paused = False\<rparr>"

definition member_in :: "VoiceChannel \<Rightarrow> Interaction" where
  "member_in ch = \<lparr>in_guild = True, user = GuildMember 7 (Some ch)\<rparr>"

text \<open>
  An extraction library that is refused by the primary platform and finds nothing on the
  secondary one.
\<close>

definition blocked_ydl :: "ydl_options \<Rightarrow> string \<Rightarrow> exn + ydl_result" where
  "blocked_ydl options q =
     (case options of
        YDL_OPTIONS \<Rightarrow> Inl (DownloadError ''ERROR: [youtube] abc: Sign in to confirm you're not a bot'')
      | SC_YDL_OPTIONS \<Rightarrow> Inl (DownloadError ''ERROR: Unable to download webpage: HTTP Error 404''))"

text \<open>
  An outside world in which every query resolves to a song named after it, every stream
  can be attached, the voice gateway connects at once, and the catalog is not configured.
\<close>

definition demo_ydl :: "ydl_options \<Rightarrow> string \<Rightarrow> exn + ydl_result" where
  "demo_ydl options q =
     Inr (Video \<lparr>info_url = Some (''https://cdn.example/'' @ q), info_title = Some q,
                 info_webpage_url = Some (''https://www.youtube.com/watch?v='' @ q)\<rparr>)"

definition demo_env :: Env where
  "demo_env = \<lparr>ydl = demo_ydl, oembed = (\<lambda>u. None), ffmpeg_ok = (\<lambda>u. True),
     connect = (\<lambda>k ch. Inr \<lparr>channel = ch, is_connected = True, is_playing = False, is_paused = False\<rparr>),
     spotify_client = None, SPOTIFY_CLIENT_ID = None, SPOTIFY_CLIENT_SECRET = None,
     new_spotify = (\<lambda>cid sec. catalog_server [])\<rparr>"

text \<open>
  A playlist of 30 entries of which exactly the tenth has no title, and a playlist of
  five entries none of which has a usable one: no name, no track, an empty name, and the
  names U+00A0 and U+3000, which are white space only.
\<close>

definition titled :: "Track option" where
  "titled = Some \<lparr>name = Some ''Never Gonna Give You Up'', artists = [Some ''Rick Astley'']\<rparr>"

definition untitled :: "Track option" where
  "untitled = Some \<lparr>name = None, artists = [Some ''Rick Astley'']\<rparr>"

definition playlist30 :: "Track option list" where
  "playlist30 = replicate 9 titled @ [untitled] @ replicate 20 titled"

definition playlist_untitled :: "Track option list" where
  "playlist_untitled =
     [untitled, None, Some \<lparr>name = Some [], artists = []\<rparr>,
      Some \<lparr>name = Some [CHR 0xC2, CHR 0xA0], artists = []\<rparr>,
      Some \<lparr>name = Some [CHR 0xE3, CHR 0x80, CHR 0x80], artists = [Some '' '']\<rparr>]"

section \<open>Properties of the playback driver\<close>

lemma play_next_blocked_if_locked:
  "voice_client g = Some vc \<Longrightarrow> lock g \<Longrightarrow> play_next ok g = Blocked g"
  by (subst play_next.simps) simp

lemma play_next_no_voice_client:
  "voice_client g = None \<Longrightarrow> play_next ok g = Returns g"
  by (subst play_next.simps) simp

lemma play_next_attach_fails:
  assumes "voice_client g = Some vc" "\<not> lock g" "\<not> is_playing vc" "\<not> is_paused vc"
    and "queue g = song # rest" "\<not> ok (stream_url song)"
  shows "play_next ok g =
    Blocked ((cancel_idle_disconnect (set_now_playing song (popleft song rest (g\<lparr>lock := True\<rparr>))))\<lparr>now_playing := None\<rparr>)"
proof -
  let ?g5 = "(cancel_idle_disconnect (set_now_playing song (popleft song rest (g\<lparr>lock := True\<rparr>))))\<lparr>now_playing := None\<rparr>"
  have vc5: "voice_client ?g5 = Some vc"
    using assms(1) by (simp add: cancel_idle_disconnect_def set_now_playing_def popleft_def split: option.splits)
  have l5: "lock ?g5"
    by (simp add: cancel_idle_disconnect_def set_now_playing_def popleft_def split: option.splits)
  have inner: "play_next ok ?g5 = Blocked ?g5"
    using vc5 l5 by (rule play_next_blocked_if_locked)
  show ?thesis
    using assms by (subst play_next.simps) (simp add: inner Let_def)
qed

lemma cancel_idle_disconnect_fields [simp]:
  "queue (cancel_idle_disconnect g) = queue g"
  "now_playing (cancel_idle_disconnect g) = now_playing g"
  "trace (cancel_idle_disconnect g) = trace g"
  "lock (cancel_idle_disconnect g) = lock g"
  "voice_client (cancel_idle_disconnect g) = voice_client g"
  "clock (cancel_idle_disconnect g) = clock g"
  "idle_task (cancel_idle_disconnect g) = None"
  "length (tasks (cancel_idle_disconnect g)) = length (tasks g)"
  by (simp_all add: cancel_idle_disconnect_def split: option.splits)

lemma lock_update_same: "lock r = b \<Longrightarrow> r\<lparr>lock := b\<rparr> = r"
  by (cases r) simp

lemma cancel_idle_disconnect_lock:
  "cancel_idle_disconnect (g\<lparr>lock := b\<rparr>) = (cancel_idle_disconnect g)\<lparr>lock := b\<rparr>"
  by (simp add: cancel_idle_disconnect_def split: option.splits)

lemma play_next_while_playing:
  assumes "voice_client g = Some vc" "is_playing vc \<or> is_paused vc" "\<not> lock g"
  shows "play_next ok g = Returns (cancel_idle_disconnect g)"
proof -
  have "release (cancel_idle_disconnect (g\<lparr>lock := True\<rparr>)) = cancel_idle_disconnect g"
    using assms(3) by (simp add: release_def cancel_idle_disconnect_lock lock_update_same)
  then show ?thesis
    using assms by (subst play_next.simps) (simp add: Let_def)
qed

lemma cancel_idle_disconnect_idem [simp]:
  "cancel_idle_disconnect (cancel_idle_disconnect g) = cancel_idle_disconnect g"
  by (simp add: cancel_idle_disconnect_def split: option.splits)

lemma play_next_times_while_playing:
  assumes "voice_client g = Some vc" "is_playing vc \<or> is_paused vc" "\<not> lock g"
  shows "play_next_times (Suc n) ok g = Returns (cancel_idle_disconnect g)"
  using assms
proof (induction n arbitrary: g)
  case 0
  then show ?case by (simp add: play_next_while_playing)
next
  case (Suc n)
  have "play_next ok g = Returns (cancel_idle_disconnect g)"
    using Suc.prems by (rule play_next_while_playing)
  moreover have "play_next_times (Suc n) ok (cancel_idle_disconnect g) = Returns (cancel_idle_disconnect (cancel_idle_disconnect g))"
    using Suc.prems by (intro Suc.IH) simp_all
  ultimately show ?case by simp
qed

lemma play_next_times_locked:
  assumes "voice_client g = Some vc" "lock g"
  shows "play_next_times n ok g = (if n = 0 then Returns g else Blocked g)"
  using assms by (cases n) (simp_all add: play_next_blocked_if_locked)

text \<open>
  Claim C2. While the voice client reports playing or paused, any number of calls of
  \<^verbatim>\<open>play_next\<close> leaves the queue, \<^verbatim>\<open>now_playing\<close> and the record of queue actions as
  they were; with the lock free every call returns, and all they do together is to disarm
  the idle scheduler. (A taken lock is never released, see C9: a call then waits for ever
  and changes nothing either.)
\<close>

theorem advance_idempotent_while_playing:
  assumes "voice_client g = Some vc" and "is_playing vc \<or> is_paused vc"
  shows "queue (state_of (play_next_times n ok g)) = queue g
       \<and> now_playing (state_of (play_next_times n ok g)) = now_playing g
       \<and> trace (state_of (play_next_times n ok g)) = trace g
       \<and> (\<not> lock g \<longrightarrow>
            play_next_times n ok g = Returns (if n = 0 then g else cancel_idle_disconnect g))"
proof (cases "lock g")
  case True
  then show ?thesis using assms(1) by (simp add: play_next_times_locked)
next
  case False
  show ?thesis
  proof (cases n)
    case 0
    then show ?thesis by simp
  next
    case (Suc m)
    then show ?thesis using False assms by (simp add: play_next_times_while_playing del: play_next_times.simps)
  qed
qed

theorem advance_idempotent_while_playing_witness:
  "queue (state_of (play_next_times 3 (\<lambda>u. True)
      (new_guild\<lparr>voice_client := Some playing_vc, queue := [song_b], now_playing := Some song_a\<rparr>))) = [song_b]
   \<and> now_playing (state_of (play_next_times 3 (\<lambda>u. True)
      (new_guild\<lparr>voice_client := Some playing_vc, queue := [song_b], now_playing := Some song_a\<rparr>))) = Some song_a
   \<and> play_next_times 3 (\<lambda>u. True)
      (new_guild\<lparr>voice_client := Some playing_vc, queue := [song_b], now_playing := Some song_a\<rparr>)
     = Returns (new_guild\<lparr>voice_client := Some playing_vc, queue := [song_b], now_playing := Some song_a\<rparr>)"
  using advance_idempotent_while_playing [of
      "new_guild\<lparr>voice_client := Some playing_vc, queue := [song_b], now_playing := Some song_a\<rparr>"
      playing_vc 3 "\<lambda>u. True"]
  by (simp add: new_guild_def playing_vc_def cancel_idle_disconnect_def)

text \<open>
  Claim C9. The claim has the retry chain go on to the next queued song and end. In the
  code the recursive call asks for \<^verbatim>\<open>player.lock\<close> while its caller holds it: with
  \<open>song_a\<close> and \<open>song_b\<close> queued and no FFmpeg source for \<open>song_a\<close>, the call takes
  \<open>song_a\<close> off the queue, clears \<^verbatim>\<open>now_playing\<close> and then waits for ever with the lock
  taken; \<open>song_b\<close> is never tried.
\<close>

theorem attach_failure_blocks:
  "play_next (\<lambda>u. u \<noteq> stream_url song_a)
     (new_guild\<lparr>voice_client := Some idle_vc, queue := [song_a, song_b]\<rparr>) =
   Blocked (new_guild\<lparr>voice_client := Some idle_vc, queue := [song_b], lock := True,
     trace := [QPopleft song_a True, NowPlaying song_a]\<rparr>)"
  apply (subst play_next_attach_fails[where vc = idle_vc and song = song_a and rest = "[song_b]"])
  apply (simp_all add: new_guild_def idle_vc_def cancel_idle_disconnect_def set_now_playing_def popleft_def)
  done

section \<open>Properties of the command handlers\<close>

text \<open>
  Claim C10, amended. The \<^verbatim>\<open>skip\<close> handler never changes the queue or \<^verbatim>\<open>now_playing\<close>
  itself and records no queue action: when the voice client reports playing or paused,
  all it does is \<^verbatim>\<open>vc.stop()\<close>, and otherwise it changes nothing. When it returns, the
  guild is as the coroutines that ran while it waited for its reply left it: the queue and
  \<^verbatim>\<open>now_playing\<close> are the old ones at that moment if those coroutines did not change
  them.
\<close>

theorem skip_mutates_nothing_itself:
  "queue (snd (skip_steps i g)) = queue g
   \<and> now_playing (snd (skip_steps i g)) = now_playing g
   \<and> trace (snd (skip_steps i g)) = trace g
   \<and> snd (skip_steps i g) =
       (if in_guild i \<and> (\<exists>vc. voice_client g = Some vc \<and> (is_playing vc \<or> is_paused vc))
        then vc_stop g else g)
   \<and> snd (skip during i g) = during (snd (skip_steps i g))
   \<and> (queue (during (snd (skip_steps i g))) = queue (snd (skip_steps i g))
        \<and> now_playing (during (snd (skip_steps i g))) = now_playing (snd (skip_steps i g)) \<longrightarrow>
      queue (snd (skip during i g)) = queue g \<and> now_playing (snd (skip during i g)) = now_playing g)"
proof -
  have own: "snd (skip_steps i g) =
       (if in_guild i \<and> (\<exists>vc. voice_client g = Some vc \<and> (is_playing vc \<or> is_paused vc))
        then vc_stop g else g)"
    by (auto simp: skip_steps_def split: option.splits)
  have frame: "queue (snd (skip_steps i g)) = queue g"
    "now_playing (snd (skip_steps i g)) = now_playing g" "trace (snd (skip_steps i g)) = trace g"
    by (simp_all add: own vc_stop_def)
  have ret: "snd (skip during i g) = during (snd (skip_steps i g))"
    by (simp add: skip_def split: prod.splits)
  show ?thesis using own frame ret by simp
qed

theorem skip_mutates_nothing_itself_witness:
  "snd (skip_steps (member_in chan_x)
      (new_guild\<lparr>voice_client := Some playing_vc, queue := [song_b], now_playing := Some song_a\<rparr>))
   = new_guild\<lparr>voice_client := Some idle_vc, queue := [song_b], now_playing := Some song_a\<rparr>
   \<and> snd (skip_steps (member_in chan_x)
      (new_guild\<lparr>voice_client := Some idle_vc, queue := [song_b]\<rparr>))
   = new_guild\<lparr>voice_client := Some idle_vc, queue := [song_b]\<rparr>
   \<and> queue (snd (skip (\<lambda>h. h\<lparr>clock := 1\<rparr>) (member_in chan_x)
      (new_guild\<lparr>voice_client := Some playing_vc, queue := [song_b], now_playing := Some song_a\<rparr>)))
     = [song_b]
   \<and> now_playing (snd (skip (\<lambda>h. h\<lparr>clock := 1\<rparr>) (member_in chan_x)
      (new_guild\<lparr>voice_client := Some playing_vc, queue := [song_b], now_playing := Some song_a\<rparr>)))
     = Some song_a"
  using skip_mutates_nothing_itself [of "member_in chan_x"
      "new_guild\<lparr>voice_client := Some playing_vc, queue := [song_b], now_playing := Some song_a\<rparr>"
      "\<lambda>h. h\<lparr>clock := 1\<rparr>"]
    skip_mutates_nothing_itself [of "member_in chan_x"
      "new_guild\<lparr>voice_client := Some idle_vc, queue := [song_b]\<rparr>" "\<lambda>h. h"]
  by (simp add: new_guild_def member_in_def playing_vc_def idle_vc_def vc_stop_def)

text \<open>
  Claim C10 as stated fails. With \<open>song_a\<close> playing and \<open>song_b\<close> queued, \<^verbatim>\<open>skip\<close> stops
  the player; the player thread posts \<^verbatim>\<open>play_next\<close>, which runs while \<^verbatim>\<open>skip\<close> waits
  for its reply and starts \<open>song_b\<close>. When \<^verbatim>\<open>skip\<close> returns, the queue and
  \<^verbatim>\<open>now_playing\<close> are not the ones it found.
\<close>

lemma skip_with_callback:
  "snd (skip (\<lambda>h. state_of (after_playback (\<lambda>u. True) h)) (member_in chan_x)
      (new_guild\<lparr>voice_client := Some playing_vc, queue := [song_b], now_playing := Some song_a\<rparr>))
   = new_guild\<lparr>voice_client := Some playing_vc, queue := [], now_playing := Some song_b,
       trace := [QPopleft song_b True, NowPlaying song_b]\<rparr>"
  by (simp add: skip_def skip_steps_def member_in_def new_guild_def playing_vc_def vc_stop_def
      after_playback_def play_next.simps Let_def popleft_def set_now_playing_def
      cancel_idle_disconnect_def release_def vc_play_def)

theorem skip_returns_after_callback:
  "\<not> (queue (snd (skip (\<lambda>h. state_of (after_playback (\<lambda>u. True) h)) (member_in chan_x)
          (new_guild\<lparr>voice_client := Some playing_vc, queue := [song_b], now_playing := Some song_a\<rparr>)))
        = queue (new_guild\<lparr>voice_client := Some playing_vc, queue := [song_b], now_playing := Some song_a\<rparr>)
      \<and> now_playing (snd (skip (\<lambda>h. state_of (after_playback (\<lambda>u. True) h)) (member_in chan_x)
          (new_guild\<lparr>voice_client := Some playing_vc, queue := [song_b], now_playing := Some song_a\<rparr>)))
        = now_playing (new_guild\<lparr>voice_client := Some playing_vc, queue := [song_b], now_playing := Some song_a\<rparr>))"
  by (simp add: skip_with_callback)

text \<open>
  Auxiliary facts on \<^verbatim>\<open>stop\<close> and on the scheduler.
\<close>

lemma stop_fields:
  assumes "in_guild i"
  shows "queue (snd (stop i g)) = []" "now_playing (snd (stop i g)) = None"
    "lock (snd (stop i g)) = lock g"
    "(voice_client (snd (stop i g)) = None) = (voice_client g = None)"
    "\<And>vc. voice_client (snd (stop i g)) = Some vc \<Longrightarrow> \<not> is_playing vc \<and> \<not> is_paused vc"
  using assms
  by (auto simp: stop_def q_clear_def vc_stop_def schedule_idle_disconnect_def Let_def
        cancel_idle_disconnect_def split: option.splits if_splits)

lemma schedule_idle_disconnect_armed: "armed (schedule_idle_disconnect g)"
  by (simp add: armed_def schedule_idle_disconnect_def Let_def cancel_idle_disconnect_def
      split: option.splits)

lemma schedule_idle_disconnect_fields:
  "queue (schedule_idle_disconnect g) = queue g"
  "now_playing (schedule_idle_disconnect g) = now_playing g"
  "trace (schedule_idle_disconnect g) = trace g"
  "lock (schedule_idle_disconnect g) = lock g"
  "voice_client (schedule_idle_disconnect g) = voice_client g"
  "clock (schedule_idle_disconnect g) = clock g"
  by (simp_all add: schedule_idle_disconnect_def Let_def cancel_idle_disconnect_def split: option.splits)

lemma armed_release: "armed (release g) = armed g"
  by (simp add: armed_def release_def split: option.splits)

lemma play_next_empty_queue:
  assumes "voice_client g = Some vc" "\<not> lock g" "\<not> is_playing vc" "\<not> is_paused vc" "queue g = []"
  shows "play_next ok g = Returns (release (schedule_idle_disconnect (g\<lparr>lock := True, now_playing := None\<rparr>)))"
  using assms by (subst play_next.simps) (simp add: Let_def)

text \<open>
  Claim C7, amended. After \<^verbatim>\<open>stop\<close> in a guild the queue is empty and \<^verbatim>\<open>now_playing\<close>
  is empty; and if the guild has a voice client and the playback lock is free, the next
  \<^verbatim>\<open>play_next\<close> returns with the idle scheduler armed and both still empty.
\<close>

theorem stop_then_advance_arms:
  assumes "in_guild i"
  shows "queue (snd (stop i g)) = [] \<and> now_playing (snd (stop i g)) = None
       \<and> (voice_client g \<noteq> None \<and> \<not> lock g \<longrightarrow>
            (\<exists>g'. play_next ok (snd (stop i g)) = Returns g'
                  \<and> armed g' \<and> queue g' = [] \<and> now_playing g' = None))"
proof -
  let ?s = "snd (stop i g)"
  have q: "queue ?s = []" and np: "now_playing ?s = None"
    using assms by (rule stop_fields)+
  have adv: "\<exists>g'. play_next ok ?s = Returns g' \<and> armed g' \<and> queue g' = [] \<and> now_playing g' = None"
    if vc: "voice_client g \<noteq> None" and l: "\<not> lock g"
  proof -
    from vc stop_fields(4)[OF assms, of g] obtain v where v: "voice_client ?s = Some v" by auto
    have silent: "\<not> is_playing v" "\<not> is_paused v"
      using stop_fields(5)[OF assms v] by simp_all
    have l': "\<not> lock ?s" using l stop_fields(3)[OF assms, of g] by simp
    have "play_next ok ?s = Returns (release (schedule_idle_disconnect (?s\<lparr>lock := True, now_playing := None\<rparr>)))"
      using v l' silent q by (rule play_next_empty_queue)
    moreover have "armed (release (schedule_idle_disconnect (?s\<lparr>lock := True, now_playing := None\<rparr>)))"
      by (simp add: armed_release schedule_idle_disconnect_armed)
    moreover have "queue (release (schedule_idle_disconnect (?s\<lparr>lock := True, now_playing := None\<rparr>))) = []"
      using q by (simp add: release_def schedule_idle_disconnect_fields)
    moreover have "now_playing (release (schedule_idle_disconnect (?s\<lparr>lock := True, now_playing := None\<rparr>))) = None"
      by (simp add: release_def schedule_idle_disconnect_fields)
    ultimately show ?thesis by blast
  qed
  show ?thesis using q np adv by blast
qed

theorem stop_then_advance_arms_witness:
  "queue (snd (stop (member_in chan_x)
      (new_guild\<lparr>voice_client := Some playing_vc, queue := [song_b], now_playing := Some song_a\<rparr>))) = []
   \<and> (\<exists>g'. play_next (\<lambda>u. True) (snd (stop (member_in chan_x)
      (new_guild\<lparr>voice_client := Some playing_vc, queue := [song_b], now_playing := Some song_a\<rparr>))) = Returns g'
      \<and> armed g' \<and> queue g' = [] \<and> now_playing g' = None)"
  using stop_then_advance_arms [of "member_in chan_x"
      "new_guild\<lparr>voice_client := Some playing_vc, queue := [song_b], now_playing := Some song_a\<rparr>"
      "\<lambda>u. True"]
  by (simp add: new_guild_def member_in_def)

text \<open>
  Claim C7 as stated fails in a guild without a voice client: \<^verbatim>\<open>play_next\<close> returns at
  once (\<^verbatim>\<open>if voice_client is None: return\<close>) and arms nothing.
\<close>

theorem stop_then_advance_not_connected:
  "\<not> armed (state_of (play_next (\<lambda>u. True) (snd (stop (member_in chan_x) new_guild))))"
  by (simp add: play_next_no_voice_client stop_def new_guild_def member_in_def q_clear_def armed_def)

section \<open>Properties of the voice connection manager\<close>

text \<open>
  Claim C8. With a voice client that is connected, \<^verbatim>\<open>ensure_voice\<close> for a member in
  channel \<open>ch\<close> returns the client unchanged when it is in \<open>ch\<close> already; when it is in
  another channel and reports playing or paused, it raises the error that names that
  channel and leaves the guild as it was; and when it is in another channel and silent,
  it moves the client to \<open>ch\<close>.
\<close>

theorem ensure_voice_existing_connection:
  assumes "in_guild i" and "user i = GuildMember uid (Some ch)"
    and "voice_client g = Some vc" and "is_connected vc"
  shows "ensure_voice conn i g =
    (if channel_id (channel vc) = channel_id ch then (Inr vc, g)
     else if is_playing vc \<or> is_paused vc
     then (Inl (RuntimeError (''I'm already active in **'' @ channel_name (channel vc) @
                  ''**. Join that channel or use /leave first.'')), g)
     else (Inr (vc\<lparr>channel := ch\<rparr>), g\<lparr>voice_client := Some (vc\<lparr>channel := ch\<rparr>)\<rparr>))"
  using assms by (simp add: ensure_voice_def Let_def)

theorem ensure_voice_existing_connection_witness:
  "ensure_voice (\<lambda>k c. Inl (OtherException ''unreachable'')) (member_in chan_y)
     (new_guild\<lparr>voice_client := Some playing_vc\<rparr>)
   = (Inl (RuntimeError ''I'm already active in **X**. Join that channel or use /leave first.''),
      new_guild\<lparr>voice_client := Some playing_vc\<rparr>)
   \<and> ensure_voice (\<lambda>k c. Inl (OtherException ''unreachable'')) (member_in chan_y)
     (new_guild\<lparr>voice_client := Some idle_vc\<rparr>)
   = (Inr (idle_vc\<lparr>channel := chan_y\<rparr>), new_guild\<lparr>voice_client := Some (idle_vc\<lparr>channel := chan_y\<rparr>)\<rparr>)
   \<and> ensure_voice (\<lambda>k c. Inl (OtherException ''unreachable'')) (member_in chan_x)
     (new_guild\<lparr>voice_client := Some playing_vc\<rparr>)
   = (Inr playing_vc, new_guild\<lparr>voice_client := Some playing_vc\<rparr>)"
  using ensure_voice_existing_connection [of "member_in chan_y" 7 chan_y
      "new_guild\<lparr>voice_client := Some playing_vc\<rparr>" playing_vc "\<lambda>k c. Inl (OtherException ''unreachable'')"]
    ensure_voice_existing_connection [of "member_in chan_y" 7 chan_y
      "new_guild\<lparr>voice_client := Some idle_vc\<rparr>" idle_vc "\<lambda>k c. Inl (OtherException ''unreachable'')"]
    ensure_voice_existing_connection [of "member_in chan_x" 7 chan_x
      "new_guild\<lparr>voice_client := Some playing_vc\<rparr>" playing_vc "\<lambda>k c. Inl (OtherException ''unreachable'')"]
  by (simp add: member_in_def new_guild_def playing_vc_def idle_vc_def chan_x_def chan_y_def)

section \<open>Properties of the song resolver\<close>

text \<open>
  When the primary platform refuses (a \<^verbatim>\<open>DownloadError\<close> that says "sign in to confirm"
  and not "drm"), \<^verbatim>\<open>_extract_with_options\<close> raises the "blocked" error.
\<close>

lemma extract_with_options_blocked:
  assumes "lib options q = Inl (DownloadError m)"
    and "\<not> contains ''drm'' (lower m)" and "contains ''sign in to confirm'' (lower m)"
  shows "extract_with_options lib q options =
    Inl (RuntimeError ''YouTube blocked this request. Try another video.'')"
  using assms by (simp add: extract_with_options_def Let_def)

text \<open>
  Claim C3. When the secondary attempt of \<^verbatim>\<open>extract_song\<close> fails, every failure \<open>e1\<close>
  of the primary attempt is the error \<^verbatim>\<open>extract_song\<close> raises; in particular a primary
  failure classified as blocked by the platform is raised as such, whatever the secondary
  failure \<open>e2\<close> was.
\<close>

theorem resolve_surfaces_primary_failure:
  assumes "extract_with_options lib (sc_query oe query) SC_YDL_OPTIONS = Inl e2"
  shows "(\<forall>e1. extract_with_options lib query YDL_OPTIONS = Inl e1 \<longrightarrow>
            extract_song lib oe query = Inl e1)
       \<and> (\<forall>m. lib YDL_OPTIONS query = Inl (DownloadError m)
               \<and> \<not> contains ''drm'' (lower m) \<and> contains ''sign in to confirm'' (lower m) \<longrightarrow>
            extract_song lib oe query =
              Inl (RuntimeError ''YouTube blocked this request. Try another video.''))"
proof -
  have first: "extract_song lib oe query = Inl e1"
    if "extract_with_options lib query YDL_OPTIONS = Inl e1" for e1
    using that assms by (simp add: extract_song_def extract'_def)
  have "extract_song lib oe query =
          Inl (RuntimeError ''YouTube blocked this request. Try another video.'')"
    if "lib YDL_OPTIONS query = Inl (DownloadError m)"
      and "\<not> contains ''drm'' (lower m)" and "contains ''sign in to confirm'' (lower m)" for m
    using first extract_with_options_blocked [of lib YDL_OPTIONS query m] that by simp
  with first show ?thesis by blast
qed

theorem resolve_surfaces_primary_failure_witness:
  "extract_with_options blocked_ydl (sc_query (\<lambda>u. None) ''never gonna give you up'') SC_YDL_OPTIONS
     = Inl (RuntimeError ''Failed to fetch audio from YouTube.'')
   \<and> extract_song blocked_ydl (\<lambda>u. None) ''never gonna give you up''
     = Inl (RuntimeError ''YouTube blocked this request. Try another video.'')"
proof -
  have sec: "extract_with_options blocked_ydl (sc_query (\<lambda>u. None) ''never gonna give you up'') SC_YDL_OPTIONS
     = Inl (RuntimeError ''Failed to fetch audio from YouTube.'')"
    by (simp add: extract_with_options_def blocked_ydl_def lower_def lower_char_def Let_def)
  have prim: "blocked_ydl YDL_OPTIONS ''never gonna give you up''
      = Inl (DownloadError ''ERROR: [youtube] abc: Sign in to confirm you're not a bot'')"
    by (simp add: blocked_ydl_def)
  have low: "lower ''ERROR: [youtube] abc: Sign in to confirm you're not a bot''
      = ''error: [youtube] abc: sign in to confirm you're not a bot''"
    by (simp add: lower_def lower_char_def)
  have "extract_song blocked_ydl (\<lambda>u. None) ''never gonna give you up''
     = Inl (RuntimeError ''YouTube blocked this request. Try another video.'')"
    using resolve_surfaces_primary_failure [OF sec] prim by (simp add: low)
  with sec show ?thesis by simp
qed

section \<open>Properties of the idle-disconnect scheduler\<close>

lemma tasks_ok_iff:
  "tasks_ok g \<longleftrightarrow> (\<forall>k < length (tasks g). status (tasks g ! k) = Sleeping \<longrightarrow> idle_task g = Some k)"
  by (auto simp: tasks_ok_def list_all_iff in_set_enumerate_eq)

lemma wake_busy:
  assumes "busy g"
  shows "\<exists>ts. wake k g = g\<lparr>tasks := ts\<rparr>"
proof (cases "k < length (tasks g) \<and> status (tasks g ! k) = Sleeping \<and> wake_at (tasks g ! k) \<le> clock g")
  case True
  then have "wake k g = g\<lparr>tasks := (tasks g)[k := (tasks g ! k)\<lparr>status := Done\<rparr>]\<rparr>"
    using assms by (auto simp: wake_def idle_disconnect_body_def busy_def split: option.splits)
  then show ?thesis by blast
next
  case False
  then have "wake k g = g" by (auto simp: wake_def)
  then have "wake k g = g\<lparr>tasks := tasks g\<rparr>" by simp
  then show ?thesis by blast
qed

lemma busy_tasks_update [simp]: "busy (g\<lparr>tasks := ts\<rparr>) = busy g"
  by (simp add: busy_def split: option.splits)

lemma fold_wake_busy:
  "busy g \<Longrightarrow> \<exists>ts. fold wake ks g = g\<lparr>tasks := ts\<rparr>"
proof (induction ks arbitrary: g)
  case Nil
  have "g = g\<lparr>tasks := tasks g\<rparr>" by simp
  then show ?case by (metis fold_simps(1))
next
  case (Cons k ks)
  from wake_busy[OF Cons.prems, of k] obtain ts where ts: "wake k g = g\<lparr>tasks := ts\<rparr>" by blast
  have "busy (g\<lparr>tasks := ts\<rparr>)" using Cons.prems by simp
  from Cons.IH[OF this] obtain ts' where "fold wake ks (g\<lparr>tasks := ts\<rparr>) = g\<lparr>tasks := ts, tasks := ts'\<rparr>"
    by blast
  then show ?case using ts by (auto intro: exI[of _ ts'])
qed

lemma fold_wake_none_due:
  assumes "\<forall>k \<in> set ks. \<not> (k < length (tasks g) \<and> status (tasks g ! k) = Sleeping \<and> wake_at (tasks g ! k) \<le> clock g)"
  shows "fold wake ks g = g"
  using assms
proof (induction ks)
  case Nil
  then show ?case by simp
next
  case (Cons k ks)
  from Cons.prems have "wake k g = g" by (auto simp: wake_def)
  moreover from Cons have "fold wake ks g = g" by simp
  ultimately show ?case by simp
qed

lemma fold_wake_fires:
  assumes "voice_client g = Some vc" "is_connected vc" "\<not> is_playing vc" "\<not> is_paused vc" "queue g = []"
    and "\<exists>k \<in> set ks. k < length (tasks g) \<and> status (tasks g ! k) = Sleeping \<and> wake_at (tasks g ! k) \<le> clock g"
  shows "trace (fold wake ks g) = trace g @ [Disconnect]
       \<and> voice_client (fold wake ks g) = None \<and> now_playing (fold wake ks g) = None"
  using assms(6)
proof (induction ks)
  case Nil
  then show ?case by simp
next
  case (Cons k ks)
  show ?case
  proof (cases "k < length (tasks g) \<and> status (tasks g ! k) = Sleeping \<and> wake_at (tasks g ! k) \<le> clock g")
    case True
    let ?g1 = "wake k g"
    have g1: "?g1 = (vc_disconnect (g\<lparr>tasks := (tasks g)[k := (tasks g ! k)\<lparr>status := Done\<rparr>]\<rparr>))\<lparr>now_playing := None\<rparr>"
      using True assms(1-5) by (simp add: wake_def idle_disconnect_body_def)
    have b: "busy ?g1" by (simp add: g1 busy_def vc_disconnect_def)
    from fold_wake_busy[OF b, of ks] obtain ts where "fold wake ks ?g1 = ?g1\<lparr>tasks := ts\<rparr>" by blast
    then show ?thesis by (simp add: g1 vc_disconnect_def)
  next
    case False
    then have "wake k g = g" by (auto simp: wake_def)
    moreover from False Cons.prems
    have "\<exists>k \<in> set ks. k < length (tasks g) \<and> status (tasks g ! k) = Sleeping \<and> wake_at (tasks g ! k) \<le> clock g"
      by auto
    ultimately show ?thesis using Cons.IH by simp
  qed
qed

lemma elapse_busy:
  assumes "busy g"
  shows "trace (elapse dt g) = trace g" "voice_client (elapse dt g) = voice_client g"
    "queue (elapse dt g) = queue g" "now_playing (elapse dt g) = now_playing g"
proof -
  have "busy (g\<lparr>clock := clock g + dt\<rparr>)" using assms by (simp add: busy_def split: option.splits)
  from fold_wake_busy[OF this, of "[0..<length (tasks g)]"]
  obtain ts where "elapse dt g = g\<lparr>clock := clock g + dt, tasks := ts\<rparr>"
    by (auto simp: elapse_def)
  then show "trace (elapse dt g) = trace g" "voice_client (elapse dt g) = voice_client g"
    "queue (elapse dt g) = queue g" "now_playing (elapse dt g) = now_playing g"
    by simp_all
qed

text \<open>The task table after \<^verbatim>\<open>schedule_idle_disconnect\<close>.\<close>

lemma cancel_no_sleeping:
  assumes "tasks_ok g" "k < length (tasks g)"
  shows "status (tasks (cancel_idle_disconnect g) ! k) \<noteq> Sleeping"
proof
  assume sl: "status (tasks (cancel_idle_disconnect g) ! k) = Sleeping"
  have ok: "idle_task g = Some k" if "status (tasks g ! k) = Sleeping"
    using assms that by (simp add: tasks_ok_iff)
  show False
  proof (cases "idle_task g")
    case None
    then have "tasks (cancel_idle_disconnect g) = tasks g"
      by (simp add: cancel_idle_disconnect_def)
    with sl ok None show False by simp
  next
    case (Some i)
    show False
    proof (cases "i < length (tasks g) \<and> status (tasks g ! i) = Sleeping")
      case True
      then have t: "tasks (cancel_idle_disconnect g) = (tasks g)[i := (tasks g ! i)\<lparr>status := Cancelled\<rparr>]"
        using Some by (simp add: cancel_idle_disconnect_def)
      show False
      proof (cases "k = i")
        case True
        with sl t assms(2) show False by simp
      next
        case False
        with sl t have "status (tasks g ! k) = Sleeping" by simp
        from ok[OF this] Some False show False by simp
      qed
    next
      case False
      then have "tasks (cancel_idle_disconnect g) = tasks g"
        using Some by (auto simp: cancel_idle_disconnect_def)
      with sl have s: "status (tasks g ! k) = Sleeping" by simp
      from ok[OF s] Some have "k = i" by simp
      with s assms(2) False show False by simp
    qed
  qed
qed

lemma schedule_tasks:
  "length (tasks (schedule_idle_disconnect g)) = Suc (length (tasks g))"
  "idle_task (schedule_idle_disconnect g) = Some (length (tasks g))"
  "tasks (schedule_idle_disconnect g) ! length (tasks g)
     = \<lparr>wake_at = clock g + IDLE_TIMEOUT_SECONDS, status = Sleeping\<rparr>"
  "k < length (tasks g) \<Longrightarrow>
     tasks (schedule_idle_disconnect g) ! k = tasks (cancel_idle_disconnect g) ! k"
  by (simp_all add: schedule_idle_disconnect_def Let_def nth_append)

lemma elapse_before_timeout:
  assumes "tasks_ok g" "dt0 < IDLE_TIMEOUT_SECONDS"
  shows "elapse dt0 (schedule_idle_disconnect g) = (schedule_idle_disconnect g)\<lparr>clock := clock g + dt0\<rparr>"
proof -
  let ?s = "schedule_idle_disconnect g"
  let ?s1 = "?s\<lparr>clock := clock ?s + dt0\<rparr>"
  have "\<not> (k < length (tasks ?s1) \<and> status (tasks ?s1 ! k) = Sleeping \<and> wake_at (tasks ?s1 ! k) \<le> clock ?s1)" for k
  proof (cases "k < length (tasks g)")
    case True
    then show ?thesis using cancel_no_sleeping[OF assms(1) True] by (simp add: schedule_tasks)
  next
    case False
    show ?thesis
    proof (cases "k = length (tasks g)")
      case True
      then show ?thesis using assms(2) by (simp add: schedule_tasks schedule_idle_disconnect_fields)
    next
      case False
      with \<open>\<not> k < length (tasks g)\<close> show ?thesis by (simp add: schedule_tasks)
    qed
  qed
  then have "fold wake [0..<length (tasks ?s)] ?s1 = ?s1"
    by (intro fold_wake_none_due) blast
  then show ?thesis by (simp add: elapse_def schedule_idle_disconnect_fields)
qed

lemma elapse_after_cancel:
  assumes "tasks_ok g"
  shows "elapse dt (cancel_idle_disconnect g) = (cancel_idle_disconnect g)\<lparr>clock := clock g + dt\<rparr>"
proof -
  let ?c = "cancel_idle_disconnect g"
  let ?c1 = "?c\<lparr>clock := clock ?c + dt\<rparr>"
  have "\<not> (k < length (tasks ?c1) \<and> status (tasks ?c1 ! k) = Sleeping \<and> wake_at (tasks ?c1 ! k) \<le> clock ?c1)" for k
    using cancel_no_sleeping[OF assms, of k] by auto
  then have "fold wake [0..<length (tasks ?c)] ?c1 = ?c1"
    by (intro fold_wake_none_due) blast
  then show ?thesis by (simp add: elapse_def)
qed

lemma tasks_ok_schedule: "tasks_ok g \<Longrightarrow> tasks_ok (schedule_idle_disconnect g)"
  unfolding tasks_ok_iff
proof (intro allI impI)
  fix k
  assume ok: "\<forall>k<length (tasks g). status (tasks g ! k) = Sleeping \<longrightarrow> idle_task g = Some k"
    and k: "k < length (tasks (schedule_idle_disconnect g))"
    and sl: "status (tasks (schedule_idle_disconnect g) ! k) = Sleeping"
  have "tasks_ok g" using ok by (simp add: tasks_ok_iff)
  show "idle_task (schedule_idle_disconnect g) = Some k"
  proof (cases "k < length (tasks g)")
    case True
    then show ?thesis using cancel_no_sleeping[OF \<open>tasks_ok g\<close> True] sl by (simp add: schedule_tasks)
  next
    case False
    then show ?thesis using k by (simp add: schedule_tasks)
  qed
qed

lemma tasks_ok_clock [simp]: "tasks_ok (g\<lparr>clock := c\<rparr>) = tasks_ok g"
  by (simp add: tasks_ok_def)

text \<open>
  Claim C6. (1) With every sleeping idle task known to the player (\<open>tasks_ok\<close>, which
  holds in every state the bot can reach, see \<open>tasks_ok_reachable\<close> at the end), a
  scheduler that is armed and then disarmed before 3600 seconds have passed causes no
  disconnect, however much time passes afterwards. (2) When the scheduler is armed in a guild whose voice
  client is connected and silent and whose queue is empty, and 3600 seconds or more pass,
  the voice client is disconnected exactly once and \<^verbatim>\<open>now_playing\<close> is empty; more time
  adds no disconnect. (3) When the voice client reports playing or paused at the time the
  task wakes, there is no disconnect, although nobody cancelled the task.
\<close>

theorem idle_scheduler:
  "(tasks_ok g \<and> dt0 < IDLE_TIMEOUT_SECONDS \<longrightarrow>
      disconnects (trace (elapse dt (cancel_idle_disconnect (elapse dt0 (schedule_idle_disconnect g)))))
        = disconnects (trace g)
      \<and> voice_client (elapse dt (cancel_idle_disconnect (elapse dt0 (schedule_idle_disconnect g))))
        = voice_client g)
   \<and> (voice_client g = Some vc \<and> is_connected vc \<and> \<not> is_playing vc \<and> \<not> is_paused vc \<and> queue g = []
       \<and> IDLE_TIMEOUT_SECONDS \<le> dt \<longrightarrow>
      disconnects (trace (elapse dt (schedule_idle_disconnect g))) = disconnects (trace g) + 1
      \<and> now_playing (elapse dt (schedule_idle_disconnect g)) = None
      \<and> voice_client (elapse dt (schedule_idle_disconnect g)) = None
      \<and> disconnects (trace (elapse dt' (elapse dt (schedule_idle_disconnect g)))) = disconnects (trace g) + 1)
   \<and> (is_playing vc' \<or> is_paused vc' \<longrightarrow>
      disconnects (trace (elapse dt ((schedule_idle_disconnect g)\<lparr>voice_client := Some vc'\<rparr>)))
        = disconnects (trace g)
      \<and> voice_client (elapse dt ((schedule_idle_disconnect g)\<lparr>voice_client := Some vc'\<rparr>)) = Some vc')"
proof (intro conjI impI)
  assume a: "tasks_ok g \<and> dt0 < IDLE_TIMEOUT_SECONDS"
  let ?s1 = "(schedule_idle_disconnect g)\<lparr>clock := clock g + dt0\<rparr>"
  have e0: "elapse dt0 (schedule_idle_disconnect g) = ?s1"
    using a by (simp add: elapse_before_timeout)
  have ok1: "tasks_ok ?s1" using a by (simp add: tasks_ok_schedule)
  have e1: "elapse dt (cancel_idle_disconnect ?s1) = (cancel_idle_disconnect ?s1)\<lparr>clock := clock ?s1 + dt\<rparr>"
    using ok1 by (rule elapse_after_cancel)
  show "disconnects (trace (elapse dt (cancel_idle_disconnect (elapse dt0 (schedule_idle_disconnect g)))))
        = disconnects (trace g)"
    by (simp only: e0 e1) (simp add: schedule_idle_disconnect_fields)
  show "voice_client (elapse dt (cancel_idle_disconnect (elapse dt0 (schedule_idle_disconnect g))))
        = voice_client g"
    by (simp only: e0 e1) (simp add: schedule_idle_disconnect_fields)
next
  assume b: "voice_client g = Some vc \<and> is_connected vc \<and> \<not> is_playing vc \<and> \<not> is_paused vc \<and> queue g = []
       \<and> IDLE_TIMEOUT_SECONDS \<le> dt"
  let ?s = "schedule_idle_disconnect g"
  let ?s1 = "?s\<lparr>clock := clock ?s + dt\<rparr>"
  have due: "\<exists>k \<in> set [0..<length (tasks ?s)].
      k < length (tasks ?s1) \<and> status (tasks ?s1 ! k) = Sleeping \<and> wake_at (tasks ?s1 ! k) \<le> clock ?s1"
    using b by (intro bexI[of _ "length (tasks g)"]) (simp_all add: schedule_tasks schedule_idle_disconnect_fields)
  have fired: "trace (fold wake [0..<length (tasks ?s)] ?s1) = trace ?s1 @ [Disconnect]
       \<and> voice_client (fold wake [0..<length (tasks ?s)] ?s1) = None
       \<and> now_playing (fold wake [0..<length (tasks ?s)] ?s1) = None"
    using b due by (intro fold_wake_fires[where vc = vc]) (simp_all add: schedule_idle_disconnect_fields)
  then have tr: "trace (elapse dt ?s) = trace g @ [Disconnect]"
    and vcn: "voice_client (elapse dt ?s) = None" and np: "now_playing (elapse dt ?s) = None"
    by (simp_all add: elapse_def schedule_idle_disconnect_fields)
  have cnt: "disconnects (t @ [Disconnect]) = disconnects t + 1" for t
    by (induction t rule: disconnects.induct) simp_all
  show "disconnects (trace (elapse dt ?s)) = disconnects (trace g) + 1" by (simp add: tr cnt)
  show "now_playing (elapse dt ?s) = None" by (rule np)
  show "voice_client (elapse dt ?s) = None" by (rule vcn)
  have "busy (elapse dt ?s)" by (simp add: busy_def vcn)
  then have "trace (elapse dt' (elapse dt ?s)) = trace (elapse dt ?s)" by (rule elapse_busy)
  then show "disconnects (trace (elapse dt' (elapse dt ?s))) = disconnects (trace g) + 1"
    by (simp add: tr cnt)
next
  assume c: "is_playing vc' \<or> is_paused vc'"
  let ?p = "(schedule_idle_disconnect g)\<lparr>voice_client := Some vc'\<rparr>"
  have "busy ?p" using c by (auto simp: busy_def)
  then have "trace (elapse dt ?p) = trace ?p" "voice_client (elapse dt ?p) = voice_client ?p"
    by (rule elapse_busy)+
  then show "disconnects (trace (elapse dt ?p)) = disconnects (trace g)"
    and "voice_client (elapse dt ?p) = Some vc'"
    by (simp_all add: schedule_idle_disconnect_fields)
qed

theorem idle_scheduler_witness:
  "disconnects (trace (elapse 3600 (cancel_idle_disconnect (elapse 100
      (schedule_idle_disconnect (new_guild\<lparr>voice_client := Some idle_vc\<rparr>)))))) = 0
   \<and> disconnects (trace (elapse 3600
      (schedule_idle_disconnect (new_guild\<lparr>voice_client := Some idle_vc\<rparr>)))) = 1
   \<and> voice_client (elapse 3600
      (schedule_idle_disconnect (new_guild\<lparr>voice_client := Some idle_vc\<rparr>))) = None
   \<and> disconnects (trace (elapse 5000 (elapse 3600
      (schedule_idle_disconnect (new_guild\<lparr>voice_client := Some idle_vc\<rparr>))))) = 1
   \<and> disconnects (trace (elapse 3600
      ((schedule_idle_disconnect (new_guild\<lparr>voice_client := Some idle_vc\<rparr>))
         \<lparr>voice_client := Some playing_vc\<rparr>))) = 0"
  using idle_scheduler [where g = "new_guild\<lparr>voice_client := Some idle_vc\<rparr>" and ?dt0.0 = 100
      and dt = 3600 and vc = idle_vc and dt' = 5000 and vc' = playing_vc]
  by (simp add: tasks_ok_def new_guild_def idle_vc_def playing_vc_def IDLE_TIMEOUT_SECONDS_def)

section \<open>First in, first out\<close>

lemma started_append: "started (t @ u) = started t @ started u"
  by (induction t rule: started.induct) simp_all

lemma enqueued_append: "enqueued (t @ u) = enqueued t @ enqueued u"
  by (induction t rule: enqueued.induct) simp_all

lemma fifo_frame:
  assumes "queue g' = queue g" "started (trace g') = started (trace g)"
    and "enqueued (trace g') = enqueued (trace g)"
  shows "fifo g' = fifo g"
  using assms by (simp add: fifo_def)

lemma fifo_q_append: "fifo g \<Longrightarrow> fifo (q_append song g)"
  by (simp add: fifo_def q_append_def started_append enqueued_append)

lemma fifo_cancel: "fifo (cancel_idle_disconnect g) = fifo g"
  by (rule fifo_frame) simp_all

lemma fifo_schedule: "fifo (schedule_idle_disconnect g) = fifo g"
  by (rule fifo_frame) (simp_all add: schedule_idle_disconnect_fields)

lemma fifo_vc_stop: "fifo (vc_stop g) = fifo g"
  by (rule fifo_frame) (simp_all add: vc_stop_def)

lemma fifo_vc_disconnect: "fifo (vc_disconnect g) = fifo g"
  by (rule fifo_frame) (simp_all add: vc_disconnect_def started_append enqueued_append)

lemma fifo_voice_client_update: "fifo (g\<lparr>voice_client := v\<rparr>) = fifo g"
  by (rule fifo_frame) simp_all

text \<open>What \<^verbatim>\<open>play_next\<close> does when it starts a song.\<close>

lemma play_next_starts:
  assumes "voice_client g = Some vc" "\<not> lock g" "\<not> is_playing vc" "\<not> is_paused vc"
    and "queue g = song # rest" "ok (stream_url song)" "is_connected vc"
  shows "play_next ok g = Returns (release (vc_play
     (cancel_idle_disconnect (set_now_playing song (popleft song rest (g\<lparr>lock := True\<rparr>))))))"
  using assms by (subst play_next.simps) (simp add: Let_def)

lemma play_next_not_connected:
  assumes "voice_client g = Some vc" "\<not> lock g" "\<not> is_playing vc" "\<not> is_paused vc"
    and "queue g = song # rest" "ok (stream_url song)" "\<not> is_connected vc"
  shows "play_next ok g = Raises (ClientException ''Not connected to voice.'') (release
     (cancel_idle_disconnect (set_now_playing song (popleft song rest (g\<lparr>lock := True\<rparr>)))))"
  using assms by (subst play_next.simps) (simp add: Let_def)

lemma play_next_pops_head:
  assumes "voice_client g = Some vc" "\<not> lock g" "\<not> is_playing vc" "\<not> is_paused vc"
    and "queue g = song # rest"
  shows "queue (state_of (play_next ok g)) = rest"
    and "trace (state_of (play_next ok g)) = trace g @ [QPopleft song True, NowPlaying song]"
proof -
  consider (fails) "\<not> ok (stream_url song)"
    | (starts) "ok (stream_url song)" "is_connected vc"
    | (raises) "ok (stream_url song)" "\<not> is_connected vc"
    by blast
  then have "queue (state_of (play_next ok g)) = rest
     \<and> trace (state_of (play_next ok g)) = trace g @ [QPopleft song True, NowPlaying song]"
  proof cases
    case fails
    show ?thesis
      by (simp add: play_next_attach_fails[of g vc song rest ok] assms fails set_now_playing_def popleft_def)
  next
    case starts
    show ?thesis
      by (simp add: play_next_starts[of g vc song rest ok] assms starts set_now_playing_def popleft_def
          release_def vc_play_def)
  next
    case raises
    show ?thesis
      by (simp add: play_next_not_connected[of g vc song rest ok] assms raises set_now_playing_def popleft_def
          release_def)
  qed
  then show "queue (state_of (play_next ok g)) = rest"
    and "trace (state_of (play_next ok g)) = trace g @ [QPopleft song True, NowPlaying song]"
    by simp_all
qed

lemma play_next_effect:
  "(queue (state_of (play_next ok g)) = queue g \<and> trace (state_of (play_next ok g)) = trace g)
   \<or> (\<exists>song rest. queue g = song # rest \<and> queue (state_of (play_next ok g)) = rest
        \<and> trace (state_of (play_next ok g)) = trace g @ [QPopleft song True, NowPlaying song])"
proof (cases "voice_client g")
  case None
  then show ?thesis by (simp add: play_next_no_voice_client)
next
  case (Some vc)
  show ?thesis
  proof (cases "lock g")
    case True
    then show ?thesis using Some by (simp add: play_next_blocked_if_locked)
  next
    case False
    show ?thesis
    proof (cases "is_playing vc \<or> is_paused vc")
      case True
      then show ?thesis using Some False by (simp add: play_next_while_playing)
    next
      case silent: False
      show ?thesis
      proof (cases "queue g")
        case Nil
        then show ?thesis using Some False silent
          by (simp add: play_next_empty_queue release_def schedule_idle_disconnect_fields)
      next
        case (Cons song rest)
        then show ?thesis
          using play_next_pops_head[OF Some False _ _ Cons, of ok] silent by simp
      qed
    qed
  qed
qed

lemma fifo_play_next: "fifo g \<Longrightarrow> fifo (state_of (play_next ok g))"
  using play_next_effect[of ok g]
  by (auto simp: fifo_def started_append enqueued_append)

lemma fifo_after_playback: "fifo g \<Longrightarrow> fifo (state_of (after_playback ok g))"
  by (simp add: after_playback_def fifo_play_next fifo_vc_stop)

text \<open>Waking idle tasks.\<close>

lemma fifo_idle_disconnect_body: "fifo (idle_disconnect_body g) = fifo g"
  by (rule fifo_frame)
    (simp_all add: idle_disconnect_body_def vc_disconnect_def started_append enqueued_append
      split: option.splits)

lemma fifo_wake: "fifo (wake k g) = fifo g"
proof -
  have "fifo (g\<lparr>tasks := ts\<rparr>) = fifo g" for ts by (rule fifo_frame) simp_all
  then show ?thesis by (simp add: wake_def fifo_idle_disconnect_body)
qed

lemma fifo_fold_wake: "fifo (fold wake ks g) = fifo g"
  by (induction ks arbitrary: g) (simp_all add: fifo_wake)

lemma fifo_elapse: "fifo (elapse dt g) = fifo g"
proof -
  have "fifo (g\<lparr>clock := c\<rparr>) = fifo g" for c by (rule fifo_frame) simp_all
  then show ?thesis by (simp add: elapse_def fifo_fold_wake)
qed

text \<open>The voice connection manager.\<close>

lemma fifo_connect_with_retry:
  "fifo (snd (connect_with_retry conn ch ks last_exc g)) = fifo g"
  by (induction ks arbitrary: last_exc g)
    (simp_all add: Let_def fifo_voice_client_update split: sum.splits)

lemma fifo_ensure_voice: "fifo (snd (ensure_voice conn i g)) = fifo g"
proof -
  have a: "fifo (snd (case connect_with_retry conn ch ks le h of
      (Inl e, g1) \<Rightarrow> (Inl e, g1)
    | (Inr vc, g1) \<Rightarrow> if \<not> is_connected vc then (Inl (RuntimeError m), g1) else (Inr vc, g1))) = fifo h"
    for ch ks le h m
    using fifo_connect_with_retry[of conn ch ks le h]
    by (cases "connect_with_retry conn ch ks le h") (auto split: sum.splits)
  show ?thesis
    by (simp add: ensure_voice_def a fifo_vc_disconnect fifo_voice_client_update Let_def
        del: connect_with_retry.simps split: user.splits option.splits)
qed

text \<open>The handlers.\<close>

lemma fifo_join: "fifo g \<Longrightarrow> fifo (snd (join_cmd env i g))"
  using fifo_ensure_voice[of "connect env" i g]
  by (cases "ensure_voice (connect env) i g")
    (auto simp: join_cmd_def fifo_schedule split: sum.splits)

lemma fifo_skip: "fifo g \<Longrightarrow> fifo (snd (skip (\<lambda>h. h) i g))"
  by (simp add: skip_def skip_steps_def fifo_vc_stop split: option.splits)

lemma fifo_spotify_step:
  "fifo (snd (snd (snd acc))) \<Longrightarrow> fifo (snd (snd (snd (spotify_step env u q acc))))"
  by (cases acc) (auto simp: spotify_step_def Let_def fifo_q_append split: sum.splits)

lemma fifo_spotify_fold:
  "fifo (snd (snd (snd acc))) \<Longrightarrow> fifo (snd (snd (snd (fold (spotify_step env u) qs acc))))"
  by (induction qs arbitrary: acc) (simp_all add: fifo_spotify_step)

lemma fifo_spotify_loop: "fifo g \<Longrightarrow> fifo (snd (snd (snd (spotify_loop env u qs g))))"
  by (simp add: spotify_loop_def fifo_spotify_fold)

lemma fifo_play:
  assumes "fifo g"
  shows "fifo (snd (play env i query g))"
proof (cases "ensure_voice (connect env) i g")
  case (Pair r g1)
  have g1: "fifo g1" using fifo_ensure_voice[of "connect env" i g] Pair assms by simp
  show ?thesis
  proof (cases r)
    case (Inl e)
    then show ?thesis using Pair g1 by (simp add: play_def)
  next
    case (Inr vc)
    let ?g2 = "cancel_idle_disconnect g1"
    have g2: "fifo ?g2" using g1 by (simp add: fifo_cancel)
    show ?thesis
    proof (cases "is_connected vc")
      case False
      then show ?thesis using Pair Inr g1 by (simp add: play_def)
    next
      case True
      show ?thesis
      proof (cases "contains ''open.spotify.com/'' (lower query)")
        case spot: True
        show ?thesis
        proof (cases "spotify_queries_from_url
                 (get_spotify_client (spotify_client env) (SPOTIFY_CLIENT_ID env)
                    (SPOTIFY_CLIENT_SECRET env) (new_spotify env)) query")
          case None
          then show ?thesis using Pair Inr True spot g2 by (simp add: play_def Let_def)
        next
          case (Some res)
          show ?thesis
          proof (cases res)
            case (Inl e)
            then show ?thesis using Pair Inr True spot g2 Some by (simp add: play_def Let_def)
          next
            case qs: (Inr qs)
            obtain added failed ft g3 where loop: "spotify_loop env (user i) qs ?g2 = (added, failed, ft, g3)"
              by (cases "spotify_loop env (user i) qs ?g2") auto
            have g3: "fifo g3" using fifo_spotify_loop[OF g2, of env "user i" qs] loop by simp
            have g4: "fifo (state_of (play_next (ffmpeg_ok env) g3))"
              using g3 by (rule fifo_play_next)
            show ?thesis
              using Pair Inr True spot Some qs loop g3 g4
              by (cases "play_next (ffmpeg_ok env) g3") (simp_all add: play_def Let_def)
          qed
        qed
      next
        case single: False
        show ?thesis
        proof (cases "extract_song (ydl env) (oembed env) query")
          case (Inl e)
          then show ?thesis using Pair Inr True single g2 by (simp add: play_def Let_def)
        next
          case song0: (Inr song0)
          let ?g3 = "q_append (set_requester (user i) song0) ?g2"
          have g4: "fifo (state_of (play_next (ffmpeg_ok env) ?g3))"
            using g2 by (intro fifo_play_next fifo_q_append)
          show ?thesis
            using Pair Inr True single song0 g4
            by (cases "play_next (ffmpeg_ok env) ?g3") (simp_all add: play_def Let_def)
        qed
      qed
    qed
  qed
qed

lemma fifo_step: "fifo g \<Longrightarrow> \<not> clears_queue e \<Longrightarrow> fifo (step e g)"
  by (cases e) (simp_all add: fifo_join fifo_play fifo_skip fifo_after_playback fifo_elapse)

lemma fifo_run: "fifo g \<Longrightarrow> \<forall>e \<in> set evs. \<not> clears_queue e \<Longrightarrow> fifo (run evs g)"
  unfolding run_def by (induction evs arbitrary: g) (simp_all add: fifo_step)

text \<open>
  Claim C1. In a run without \<^verbatim>\<open>stop\<close> and \<^verbatim>\<open>leave\<close> (any \<^verbatim>\<open>join\<close>, \<^verbatim>\<open>play\<close>,
  \<^verbatim>\<open>skip\<close>, completion callback and passing of time, whatever the outside world
  answers), the songs that have become \<^verbatim>\<open>now_playing\<close>, followed by the songs still
  queued, are the songs appended to the queue in the order of their appends: songs become
  \<^verbatim>\<open>now_playing\<close> in the order they were enqueued. And a \<^verbatim>\<open>play_next\<close> that finds
  the lock free, the voice client silent and the queue not empty takes exactly the head
  off the queue and makes it \<^verbatim>\<open>now_playing\<close>; it returns with that song playing when
  the stream can be attached to a connected client.
\<close>

theorem fifo_order:
  "(started (trace g) @ queue g = enqueued (trace g) \<and> (\<forall>e \<in> set evs. \<not> clears_queue e) \<longrightarrow>
      started (trace (run evs g)) @ queue (run evs g) = enqueued (trace (run evs g)))
   \<and> (voice_client h = Some vc \<and> \<not> lock h \<and> \<not> is_playing vc \<and> \<not> is_paused vc
       \<and> queue h = song # rest \<longrightarrow>
      queue (state_of (play_next ok h)) = rest
      \<and> trace (state_of (play_next ok h)) = trace h @ [QPopleft song True, NowPlaying song]
      \<and> (ok (stream_url song) \<and> is_connected vc \<longrightarrow>
           (\<exists>h'. play_next ok h = Returns h' \<and> now_playing h' = Some song \<and> queue h' = rest)))"
proof (intro conjI impI)
  assume "started (trace g) @ queue g = enqueued (trace g) \<and> (\<forall>e \<in> set evs. \<not> clears_queue e)"
  then have "fifo (run evs g)" by (intro fifo_run) (simp_all add: fifo_def)
  then show "started (trace (run evs g)) @ queue (run evs g) = enqueued (trace (run evs g))"
    by (simp add: fifo_def)
next
  assume a: "voice_client h = Some vc \<and> \<not> lock h \<and> \<not> is_playing vc \<and> \<not> is_paused vc
       \<and> queue h = song # rest"
  then show "queue (state_of (play_next ok h)) = rest"
    by (intro play_next_pops_head(1)[of h vc song rest ok]) simp_all
  from a show "trace (state_of (play_next ok h)) = trace h @ [QPopleft song True, NowPlaying song]"
    by (intro play_next_pops_head(2)[of h vc song rest ok]) simp_all
  assume b: "ok (stream_url song) \<and> is_connected vc"
  have "play_next ok h = Returns (release (vc_play
     (cancel_idle_disconnect (set_now_playing song (popleft song rest (h\<lparr>lock := True\<rparr>))))))"
    using a b by (intro play_next_starts[of h vc song rest ok]) simp_all
  then show "\<exists>h'. play_next ok h = Returns h' \<and> now_playing h' = Some song \<and> queue h' = rest"
    by (simp add: release_def vc_play_def set_now_playing_def popleft_def)
qed

lemma demo_extract_song:
  "extract_song demo_ydl oe q = Inr \<lparr>title = q, stream_url = ''https://cdn.example/'' @ q,
     webpage_url = ''https://www.youtube.com/watch?v='' @ q, requester_id = 0\<rparr>"
  by (simp add: extract_song_def extract'_def extract_with_options_def demo_ydl_def)

lemma demo_run:
  "run [Play demo_env (member_in chan_x) ''a'', Play demo_env (member_in chan_x) ''b'',
        Play demo_env (member_in chan_x) ''c'', AfterPlayback (\<lambda>u. True), AfterPlayback (\<lambda>u. True)]
     new_guild
   = \<lparr>queue = [], lock = False, now_playing = Some song_c, idle_task = None,
      voice_client = Some playing_vc, tasks = [], clock = 0,
      trace = [QAppend song_a False, QPopleft song_a True, NowPlaying song_a,
               QAppend song_b False, QAppend song_c False,
               QPopleft song_b True, NowPlaying song_b,
               QPopleft song_c True, NowPlaying song_c]\<rparr>"
  by (simp add: run_def play_def demo_env_def member_in_def new_guild_def ensure_voice_def
      demo_extract_song lower_def lower_char_def set_requester_def q_append_def
      cancel_idle_disconnect_def play_next.simps Let_def popleft_def set_now_playing_def
      release_def vc_play_def vc_stop_def after_playback_def song_a_def song_b_def song_c_def
      playing_vc_def chan_x_def)

theorem fifo_order_witness:
  "started (trace (run [Play demo_env (member_in chan_x) ''a'', Play demo_env (member_in chan_x) ''b'',
        Play demo_env (member_in chan_x) ''c'', AfterPlayback (\<lambda>u. True), AfterPlayback (\<lambda>u. True)]
     new_guild)) = [song_a, song_b, song_c]
   \<and> enqueued (trace (run [Play demo_env (member_in chan_x) ''a'', Play demo_env (member_in chan_x) ''b'',
        Play demo_env (member_in chan_x) ''c'', AfterPlayback (\<lambda>u. True), AfterPlayback (\<lambda>u. True)]
     new_guild)) = [song_a, song_b, song_c]
   \<and> (\<exists>h'. play_next (\<lambda>u. True) (new_guild\<lparr>voice_client := Some idle_vc, queue := [song_a, song_b]\<rparr>)
          = Returns h' \<and> now_playing h' = Some song_a \<and> queue h' = [song_b])"
  using fifo_order [where g = new_guild
      and evs = "[Play demo_env (member_in chan_x) ''a'', Play demo_env (member_in chan_x) ''b'',
        Play demo_env (member_in chan_x) ''c'', AfterPlayback (\<lambda>u. True), AfterPlayback (\<lambda>u. True)]"
      and h = "new_guild\<lparr>voice_client := Some idle_vc, queue := [song_a, song_b]\<rparr>"
      and vc = idle_vc and song = song_a and rest = "[song_b]" and ok = "\<lambda>u. True"]
  by (simp add: demo_run) (simp add: new_guild_def idle_vc_def)

section \<open>Queue mutations and the playback lock\<close>

lemma spotify_step_appends:
  "\<exists>songs. trace (snd (snd (snd (spotify_step env u q (a, f, ft, g)))))
              = trace g @ map (\<lambda>s. QAppend s (lock g)) songs
         \<and> queue (snd (snd (snd (spotify_step env u q (a, f, ft, g))))) = queue g @ songs
         \<and> lock (snd (snd (snd (spotify_step env u q (a, f, ft, g))))) = lock g"
proof (cases "extract_song (ydl env) (oembed env) q")
  case (Inl e)
  then show ?thesis by (auto simp: spotify_step_def intro: exI[of _ "[]"])
next
  case (Inr song0)
  then show ?thesis
    by (auto simp: spotify_step_def Let_def q_append_def
        intro: exI[of _ "[set_requester u song0]"])
qed

lemma spotify_fold_appends:
  "\<exists>songs. trace (snd (snd (snd (fold (spotify_step env u) qs acc))))
              = trace (snd (snd (snd acc))) @ map (\<lambda>s. QAppend s (lock (snd (snd (snd acc))))) songs
         \<and> queue (snd (snd (snd (fold (spotify_step env u) qs acc)))) = queue (snd (snd (snd acc))) @ songs
         \<and> lock (snd (snd (snd (fold (spotify_step env u) qs acc)))) = lock (snd (snd (snd acc)))"
proof (induction qs arbitrary: acc)
  case Nil
  show ?case by (auto intro: exI[of _ "[]"])
next
  case (Cons q qs)
  obtain a f ft g where acc: "acc = (a, f, ft, g)" by (cases acc) auto
  let ?acc1 = "spotify_step env u q acc"
  from spotify_step_appends[of env u q a f ft g] obtain s1 where
    s1: "trace (snd (snd (snd ?acc1))) = trace g @ map (\<lambda>s. QAppend s (lock g)) s1"
      "queue (snd (snd (snd ?acc1))) = queue g @ s1" "lock (snd (snd (snd ?acc1))) = lock g"
    unfolding acc by blast
  from Cons.IH[of ?acc1] obtain s2 where
    s2: "trace (snd (snd (snd (fold (spotify_step env u) qs ?acc1))))
          = trace (snd (snd (snd ?acc1))) @ map (\<lambda>s. QAppend s (lock (snd (snd (snd ?acc1))))) s2"
      "queue (snd (snd (snd (fold (spotify_step env u) qs ?acc1)))) = queue (snd (snd (snd ?acc1))) @ s2"
      "lock (snd (snd (snd (fold (spotify_step env u) qs ?acc1)))) = lock (snd (snd (snd ?acc1)))"
    by blast
  show ?case
    using s1 s2 by (intro exI[of _ "s1 @ s2"]) (simp add: acc)
qed

text \<open>What the voice connection manager and \<^verbatim>\<open>play_next\<close> do to the lock and the record of actions,
  and the append of a single request.\<close>

lemma connect_with_retry_lock_trace:
  "lock (snd (connect_with_retry conn ch ks last_exc g)) = lock g
   \<and> trace (snd (connect_with_retry conn ch ks last_exc g)) = trace g"
  by (induction ks arbitrary: last_exc g) (simp_all add: Let_def split: sum.splits)

lemma ensure_voice_lock: "lock (snd (ensure_voice conn i g)) = lock g"
proof -
  have a: "lock (snd (case connect_with_retry conn ch ks le h of
      (Inl e, g1) \<Rightarrow> (Inl e, g1)
    | (Inr vc, g1) \<Rightarrow> if \<not> is_connected vc then (Inl (RuntimeError m), g1) else (Inr vc, g1))) = lock h"
    for ch ks le h m
    using connect_with_retry_lock_trace[of conn ch ks le h]
    by (cases "connect_with_retry conn ch ks le h") (auto split: sum.splits)
  show ?thesis
    by (simp add: ensure_voice_def a vc_disconnect_def Let_def
        del: connect_with_retry.simps split: user.splits option.splits)
qed

lemma play_next_trace:
  "\<exists>t. trace (state_of (play_next ok g)) = trace g @ t \<and> locked_mutations t"
  using play_next_effect[of ok g]
proof
  assume "queue (state_of (play_next ok g)) = queue g \<and> trace (state_of (play_next ok g)) = trace g"
  then show ?thesis by (intro exI[of _ "[]"]) simp
next
  assume "\<exists>song rest. queue g = song # rest \<and> queue (state_of (play_next ok g)) = rest
      \<and> trace (state_of (play_next ok g)) = trace g @ [QPopleft song True, NowPlaying song]"
  then obtain song where "trace (state_of (play_next ok g)) = trace g @ [QPopleft song True, NowPlaying song]"
    by blast
  then show ?thesis by (intro exI[of _ "[QPopleft song True, NowPlaying song]"]) simp
qed

lemma play_single_appends:
  assumes "\<not> contains ''open.spotify.com/'' (lower query)"
    and "ensure_voice (connect env) i g = (Inr vc, g1)" and "is_connected vc"
    and "extract_song (ydl env) (oembed env) query = Inr song0"
  shows "\<exists>t. trace (snd (play env i query g))
            = trace g1 @ QAppend (set_requester (user i) song0) (lock g) # t
          \<and> locked_mutations t"
proof -
  let ?song = "set_requester (user i) song0"
  let ?g3 = "q_append ?song (cancel_idle_disconnect g1)"
  have l: "lock g1 = lock g" using ensure_voice_lock[of "connect env" i g] assms(2) by simp
  have t3: "trace ?g3 = trace g1 @ [QAppend ?song (lock g)]"
    by (simp add: q_append_def l)
  have p: "snd (play env i query g) = state_of (play_next (ffmpeg_ok env) ?g3)"
    using assms by (cases "play_next (ffmpeg_ok env) ?g3") (simp_all add: play_def Let_def)
  from play_next_trace[of "ffmpeg_ok env" ?g3] obtain t where
    "trace (state_of (play_next (ffmpeg_ok env) ?g3)) = trace ?g3 @ t" "locked_mutations t"
    by blast
  then show ?thesis using p t3 by (intro exI[of _ t]) simp
qed

text \<open>
  Claim C5, amended. Only \<^verbatim>\<open>play_next\<close> mutates the queue with \<^verbatim>\<open>player.lock\<close> held:
  every queue action it adds is a pop under the lock. The loop of \<^verbatim>\<open>play\<close> over a
  catalog batch appends each resolved song without taking the lock (the lock is as it was
  before the loop at every append and after it), \<^verbatim>\<open>stop\<close> and \<^verbatim>\<open>leave\<close> clear the
  queue without taking it, and \<^verbatim>\<open>play\<close> with a single request appends its song with the
  lock as the handler found it; what follows that append are the actions of its
  \<^verbatim>\<open>play_next\<close>.
\<close>

theorem queue_mutations_and_lock:
  "(\<exists>t. trace (state_of (play_next ok g)) = trace g @ t \<and> locked_mutations t)
   \<and> (\<exists>songs. trace (snd (snd (snd (spotify_loop env u qs g))))
                 = trace g @ map (\<lambda>s. QAppend s (lock g)) songs
            \<and> queue (snd (snd (snd (spotify_loop env u qs g)))) = queue g @ songs
            \<and> lock (snd (snd (snd (spotify_loop env u qs g)))) = lock g)
   \<and> (in_guild i \<longrightarrow>
        trace (snd (stop i g)) = trace g @ [QClear (lock g)]
        \<and> lock (snd (stop i g)) = lock g
        \<and> trace (snd (leave i g))
            = trace g @ [QClear (lock g)] @ (if voice_client g = None then [] else [Disconnect])
        \<and> lock (snd (leave i g)) = lock g)
   \<and> (\<not> contains ''open.spotify.com/'' (lower query)
       \<and> ensure_voice (connect env) i g = (Inr vc, g1) \<and> is_connected vc
       \<and> extract_song (ydl env) (oembed env) query = Inr song0 \<longrightarrow>
        (\<exists>t. trace (snd (play env i query g))
               = trace g1 @ QAppend (set_requester (user i) song0) (lock g) # t
             \<and> locked_mutations t))"
proof (intro conjI impI)
  show "\<exists>t. trace (state_of (play_next ok g)) = trace g @ t \<and> locked_mutations t"
    by (rule play_next_trace)
  show "\<exists>songs. trace (snd (snd (snd (spotify_loop env u qs g))))
                 = trace g @ map (\<lambda>s. QAppend s (lock g)) songs
            \<and> queue (snd (snd (snd (spotify_loop env u qs g)))) = queue g @ songs
            \<and> lock (snd (snd (snd (spotify_loop env u qs g)))) = lock g"
    using spotify_fold_appends[of env u qs "(0, 0, None, g)"] by (simp add: spotify_loop_def)
next
  assume i: "in_guild i"
  show "trace (snd (stop i g)) = trace g @ [QClear (lock g)]"
    using i by (simp add: stop_def Let_def q_clear_def vc_stop_def schedule_idle_disconnect_fields
        split: option.splits)
  show "lock (snd (stop i g)) = lock g"
    using i by (rule stop_fields)
  show "trace (snd (leave i g))
            = trace g @ [QClear (lock g)] @ (if voice_client g = None then [] else [Disconnect])"
    using i by (simp add: leave_def Let_def q_clear_def vc_disconnect_def split: option.splits)
  show "lock (snd (leave i g)) = lock g"
    using i by (simp add: leave_def Let_def q_clear_def vc_disconnect_def split: option.splits)
next
  assume a: "\<not> contains ''open.spotify.com/'' (lower query)
       \<and> ensure_voice (connect env) i g = (Inr vc, g1) \<and> is_connected vc
       \<and> extract_song (ydl env) (oembed env) query = Inr song0"
  show "\<exists>t. trace (snd (play env i query g))
               = trace g1 @ QAppend (set_requester (user i) song0) (lock g) # t
             \<and> locked_mutations t"
    using play_single_appends[of query env i g vc g1 song0] a by blast
qed

text \<open>
  A batch of two queries in a guild with a silent voice client, and a \<^verbatim>\<open>play_next\<close>
  that runs after the first round of the loop.
\<close>

lemma demo_batch:
  "spotify_loop demo_env (GuildMember 7 (Some chan_x)) [''a'', ''b'']
      (new_guild\<lparr>voice_client := Some idle_vc\<rparr>)
   = (2, 0, Some ''a'', new_guild\<lparr>voice_client := Some idle_vc, queue := [song_a, song_b],
        trace := [QAppend song_a False, QAppend song_b False]\<rparr>)"
  by (simp add: spotify_loop_def spotify_step_def demo_env_def demo_extract_song set_requester_def
      q_append_def new_guild_def song_a_def song_b_def Let_def)

lemma demo_batch_interleaved:
  "play_next (\<lambda>u. True)
     (snd (snd (snd (spotify_step demo_env (GuildMember 7 (Some chan_x)) ''a''
        (0, 0, None, new_guild\<lparr>voice_client := Some idle_vc\<rparr>)))))
   = Returns (new_guild\<lparr>voice_client := Some playing_vc, now_playing := Some song_a,
        trace := [QAppend song_a False, QPopleft song_a True, NowPlaying song_a]\<rparr>)"
  by (simp add: spotify_step_def demo_env_def demo_extract_song set_requester_def
      q_append_def new_guild_def song_a_def Let_def play_next.simps idle_vc_def playing_vc_def
      popleft_def set_now_playing_def cancel_idle_disconnect_def release_def vc_play_def)

text \<open>
  Claim C5 as stated fails: both songs of the batch are appended with the lock free, and
  a \<^verbatim>\<open>play_next\<close> that runs between the two appends gets the lock and starts the first
  song while the second is not queued yet.
\<close>

theorem batch_appends_without_lock:
  "\<not> locked_mutations (trace (snd (snd (snd
        (spotify_loop demo_env (GuildMember 7 (Some chan_x)) [''a'', ''b'']
           (new_guild\<lparr>voice_client := Some idle_vc\<rparr>))))))
   \<and> now_playing (state_of (play_next (\<lambda>u. True)
        (snd (snd (snd (spotify_step demo_env (GuildMember 7 (Some chan_x)) ''a''
           (0, 0, None, new_guild\<lparr>voice_client := Some idle_vc\<rparr>))))))) = Some song_a"
  by (simp add: demo_batch demo_batch_interleaved)

theorem queue_mutations_and_lock_witness:
  "trace (snd (stop (member_in chan_x) (new_guild\<lparr>voice_client := Some idle_vc, queue := [song_a]\<rparr>)))
     = [QClear False]
   \<and> trace (snd (leave (member_in chan_x) (new_guild\<lparr>voice_client := Some idle_vc, queue := [song_a]\<rparr>)))
     = [QClear False, Disconnect]
   \<and> (\<exists>t. trace (state_of (play_next (\<lambda>u. True)
        (new_guild\<lparr>voice_client := Some idle_vc, queue := [song_a]\<rparr>))) = t \<and> locked_mutations t)
   \<and> (\<exists>t. trace (snd (play demo_env (member_in chan_x) ''b''
        (new_guild\<lparr>voice_client := Some idle_vc, queue := [song_a]\<rparr>)))
          = QAppend song_b False # t \<and> locked_mutations t)"
proof -
  let ?g = "new_guild\<lparr>voice_client := Some idle_vc, queue := [song_a]\<rparr>"
  have ev: "ensure_voice (connect demo_env) (member_in chan_x) ?g = (Inr idle_vc, ?g)"
    by (simp add: ensure_voice_def member_in_def new_guild_def idle_vc_def chan_x_def)
  have q: "\<not> contains ''open.spotify.com/'' (lower ''b'')"
    by (simp add: lower_def lower_char_def)
  have ex: "extract_song (ydl demo_env) (oembed demo_env) ''b'' = Inr (song_b\<lparr>requester_id := 0\<rparr>)"
    by (simp add: demo_env_def demo_extract_song song_b_def)
  have sr: "set_requester (user (member_in chan_x)) (song_b\<lparr>requester_id := 0\<rparr>) = song_b"
    by (simp add: set_requester_def member_in_def song_b_def)
  show ?thesis
    using queue_mutations_and_lock [where g = ?g and i = "member_in chan_x" and ok = "\<lambda>u. True"
        and env = demo_env and u = NoUser and qs = "[]" and query = "''b''" and vc = idle_vc
        and ?g1.0 = ?g and ?song0.0 = "song_b\<lparr>requester_id := 0\<rparr>"]
      ev q ex
    by (simp add: sr idle_vc_def) (simp add: member_in_def new_guild_def)
qed

section \<open>Properties of the catalog expander\<close>

lemma add_query_append: "add_query q qs = qs @ add_query q []"
  by (simp add: add_query_def split: option.splits)

lemma length_add_query: "length (add_query q qs) \<le> Suc (length qs)"
  by (simp add: add_query_def split: option.splits)

lemma foldl_add_query:
  "foldl (\<lambda>queries t. add_query (to_query t) queries) qs es = qs @ usable_queries es"
proof (induction es arbitrary: qs)
  case Nil
  show ?case by (simp add: usable_queries_def)
next
  case (Cons t es)
  have "foldl (\<lambda>queries t. add_query (to_query t) queries) qs (t # es)
      = add_query (to_query t) qs @ usable_queries es"
    by (simp add: Cons.IH)
  also have "\<dots> = qs @ add_query (to_query t) [] @ usable_queries es"
    by (subst add_query_append) simp
  also have "add_query (to_query t) [] @ usable_queries es = usable_queries (t # es)"
    by (simp add: usable_queries_def Cons.IH[of "add_query (to_query t) []"])
  finally show ?case .
qed

lemma usable_queries_Nil [simp]: "usable_queries [] = []"
  by (simp add: usable_queries_def)

lemma usable_queries_Cons: "usable_queries (t # ts) = add_query (to_query t) [] @ usable_queries ts"
proof -
  have "usable_queries (t # ts)
      = foldl (\<lambda>queries t. add_query (to_query t) queries) (add_query (to_query t) []) ts"
    by (simp add: usable_queries_def)
  also have "\<dots> = add_query (to_query t) [] @ usable_queries ts"
    by (rule foldl_add_query)
  finally show ?thesis .
qed

lemma usable_queries_append: "usable_queries (xs @ ys) = usable_queries xs @ usable_queries ys"
  by (induction xs) (simp_all add: usable_queries_Cons)

lemma take_take_append: "take n (take n xs @ ys) = take n (xs @ ys)"
  by (cases "length xs \<le> n") (simp_all add: min_def)

text \<open>The loop over one page stops at the cap.\<close>

lemma add_tracks_take:
  "length qs < MAX_SPOTIFY_TRACKS \<Longrightarrow>
   add_tracks ts qs = take MAX_SPOTIFY_TRACKS (qs @ usable_queries ts)"
proof (induction ts arbitrary: qs)
  case Nil
  then show ?case by simp
next
  case (Cons t ts)
  let ?qs' = "add_query (to_query t) qs"
  have eq: "?qs' @ usable_queries ts = qs @ usable_queries (t # ts)"
    by (subst add_query_append) (simp add: usable_queries_Cons)
  have le: "length ?qs' \<le> MAX_SPOTIFY_TRACKS"
    using length_add_query[of "to_query t" qs] Cons.prems by simp
  show ?case
  proof (cases "length ?qs' \<ge> MAX_SPOTIFY_TRACKS")
    case True
    with le have "take MAX_SPOTIFY_TRACKS (?qs' @ usable_queries ts) = ?qs'" by simp
    with True show ?thesis by (simp add: Let_def eq)
  next
    case False
    then have "add_tracks ts ?qs' = take MAX_SPOTIFY_TRACKS (?qs' @ usable_queries ts)"
      by (intro Cons.IH) simp
    with False show ?thesis by (simp add: Let_def eq)
  qed
qed

lemma item_tracks_serve_page:
  "item_tracks (serve_page (map Some es) limit offset) = serve_page es limit offset"
  by (simp add: item_tracks_def serve_page_def take_map drop_map comp_def)

text \<open>The loop over the pages of a catalog that serves the list \<open>es\<close>.\<close>

lemma collect_pages_served:
  assumes "0 < page_size"
  shows "length qs \<le> MAX_SPOTIFY_TRACKS \<Longrightarrow>
    collect_pages (\<lambda>offset. Inr (serve_page es page_size offset)) page_size offset qs
      = Some (Inr (take MAX_SPOTIFY_TRACKS (qs @ usable_queries (drop offset es))))"
proof (induction "length es - offset" arbitrary: offset qs rule: less_induct)
  case less
  let ?fetch = "\<lambda>offset. Inr (serve_page es page_size offset) :: exn + (Track option) Page"
  show ?case
  proof (cases "length qs < MAX_SPOTIFY_TRACKS")
    case False
    with less.prems have "length qs = MAX_SPOTIFY_TRACKS" by simp
    then show ?thesis using False by (subst collect_pages.simps) simp
  next
    case small: True
    let ?items = "take page_size (drop offset es)"
    show ?thesis
    proof (cases "?items = []")
      case True
      then have "drop offset es = []" using assms by (cases "drop offset es") simp_all
      then show ?thesis using small True
        by (subst collect_pages.simps) (simp add: serve_page_def)
    next
      case nonempty: False
      let ?qs' = "add_tracks ?items qs"
      have qs': "?qs' = take MAX_SPOTIFY_TRACKS (qs @ usable_queries ?items)"
        using small by (rule add_tracks_take)
      show ?thesis
      proof (cases "offset + page_size < length es")
        case False
        then have "?items = drop offset es" by simp
        then show ?thesis using small nonempty False qs'
          by (subst collect_pages.simps) (simp add: serve_page_def Let_def)
      next
        case more: True
        have "collect_pages ?fetch page_size (offset + page_size) ?qs'
            = Some (Inr (take MAX_SPOTIFY_TRACKS (?qs' @ usable_queries (drop (offset + page_size) es))))"
          using more assms by (intro less.hyps) (simp_all add: qs')
        also have "take MAX_SPOTIFY_TRACKS (?qs' @ usable_queries (drop (offset + page_size) es))
            = take MAX_SPOTIFY_TRACKS (qs @ usable_queries ?items @ usable_queries (drop (offset + page_size) es))"
          by (simp only: qs' take_take_append append_assoc)
        also have "usable_queries ?items @ usable_queries (drop (offset + page_size) es)
            = usable_queries (drop offset es)"
        proof -
          have "?items @ drop (offset + page_size) es = drop offset es"
            by (metis add.commute append_take_drop_id drop_drop)
          then show ?thesis by (metis usable_queries_append)
        qed
        finally have rec: "collect_pages ?fetch page_size (offset + page_size) ?qs'
            = Some (Inr (take MAX_SPOTIFY_TRACKS (qs @ usable_queries (drop offset es))))" .
        show ?thesis
          using small nonempty more rec
          by (subst collect_pages.simps) (simp add: serve_page_def Let_def)
      qed
    qed
  qed
qed

text \<open>
  Claim C4, amended. For a catalog that serves the list \<open>entries\<close> page by page, the
  expansion of an album or playlist link yields the queries of the entries with a usable
  title, in catalog order, cut off at the cap of 25; it fails with "No playable tracks"
  exactly when no entry has a usable title. An entry without a title is skipped: it
  changes nothing in the queries of the entries around it.
\<close>

theorem catalog_expansion_capped:
  "(parse_spotify_url url = Inr (kind, resource_id) \<and> kind \<noteq> ''track'' \<longrightarrow>
      spotify_queries_from_url (Inr (catalog_server entries)) url =
        Some (if usable_queries entries = []
              then Inl (RuntimeError ''No playable tracks found in that Spotify link.'')
              else Inr (take MAX_SPOTIFY_TRACKS (usable_queries entries))))
   \<and> (to_query t = None \<longrightarrow> usable_queries (xs @ t # ys) = usable_queries (xs @ ys))"
proof (intro conjI impI)
  assume a: "parse_spotify_url url = Inr (kind, resource_id) \<and> kind \<noteq> ''track''"
  have album: "collect_pages (\<lambda>offset. album_tracks (catalog_server entries) resource_id 50 offset) 50 0 []
      = Some (Inr (take MAX_SPOTIFY_TRACKS (usable_queries entries)))"
    using collect_pages_served[of 50 "[]" entries 0] by (simp add: catalog_server_def)
  have playlist: "collect_pages
        (\<lambda>offset. map_sum (\<lambda>e. e) item_tracks (playlist_items (catalog_server entries) resource_id 100 offset))
        100 0 []
      = Some (Inr (take MAX_SPOTIFY_TRACKS (usable_queries entries)))"
    using collect_pages_served[of 100 "[]" entries 0]
    by (simp add: catalog_server_def item_tracks_serve_page)
  show "spotify_queries_from_url (Inr (catalog_server entries)) url =
        Some (if usable_queries entries = []
              then Inl (RuntimeError ''No playable tracks found in that Spotify link.'')
              else Inr (take MAX_SPOTIFY_TRACKS (usable_queries entries)))"
    using a by (simp add: spotify_queries_from_url_def album playlist MAX_SPOTIFY_TRACKS_def)
next
  assume "to_query t = None"
  then show "usable_queries (xs @ t # ys) = usable_queries (xs @ ys)"
    by (simp add: usable_queries_append usable_queries_Cons add_query_def)
qed

text \<open>
  The playlist of 30 entries whose tenth has no title: 29 entries are usable, and the
  expansion stops at 25 queries.
\<close>

lemma parse_playlist_url:
  "parse_spotify_url ''https://open.spotify.com/playlist/37i9dQZF1DX'' = Inr (''playlist'', ''37i9dQZF1DX'')"
  by (simp add: parse_spotify_url_def match_here_def match_kind_def is_alnum_def)

text \<open>
  \<^verbatim>\<open>strip\<close> at work: ASCII and other white space goes from both ends (U+00A0, U+3000,
  U+2028), while the last byte of the encoding of U+00E0, which is the last byte of the
  encoding of U+00A0 too, stays.
\<close>

lemma strip_examples:
  "strip ''Rick Astley'' = ''Rick Astley''"
  "strip ''Never Gonna Give You Up Rick Astley'' = ''Never Gonna Give You Up Rick Astley''"
  "strip [CHR 0xC2, CHR 0xA0] = []"
  "strip ([CHR 0xE3, CHR 0x80, CHR 0x80] @ ''  Song'' @ [CHR 0x20, CHR 0xE2, CHR 0x80, CHR 0xA8]) = ''Song''"
  "strip [CHR 0xC3, CHR 0xA0] = [CHR 0xC3, CHR 0xA0]"
  by (simp_all add: strip_def lstrip.simps whitespace_def)

lemma to_query_titled: "to_query titled = Some ''Never Gonna Give You Up Rick Astley''"
proof -
  have "to_query titled = Some (strip (''Never Gonna Give You Up'' @ '' '' @ strip ''Rick Astley''))"
    by (simp add: to_query_def titled_def List.map_filter_simps)
  then show ?thesis by (simp add: strip_examples)
qed

lemma to_query_untitled: "to_query untitled = None"
  by (simp add: to_query_def untitled_def)

lemma usable_queries_replicate_titled:
  "usable_queries (replicate n titled) = replicate n ''Never Gonna Give You Up Rick Astley''"
  by (induction n) (simp_all add: usable_queries_Cons add_query_def to_query_titled)

lemma usable_queries_playlist30:
  "usable_queries playlist30 = replicate 29 ''Never Gonna Give You Up Rick Astley''"
proof -
  have "usable_queries playlist30
      = replicate 9 ''Never Gonna Give You Up Rick Astley'' @ replicate 20 ''Never Gonna Give You Up Rick Astley''"
    by (simp add: playlist30_def usable_queries_append usable_queries_Cons
        usable_queries_replicate_titled to_query_untitled add_query_def)
  also have "\<dots> = replicate (9 + 20) ''Never Gonna Give You Up Rick Astley''"
    by (simp only: replicate_add)
  finally show ?thesis by simp
qed

lemma usable_queries_playlist_untitled: "usable_queries playlist_untitled = []"
proof -
  have "to_query None = None" by (simp add: to_query_def)
  moreover have "to_query (Some \<lparr>name = Some [], artists = []\<rparr>) = None"
    by (simp add: to_query_def)
  moreover have "to_query (Some \<lparr>name = Some [CHR 0xC2, CHR 0xA0], artists = []\<rparr>) = Some []"
    by (simp add: to_query_def strip_def lstrip.simps whitespace_def List.map_filter_simps)
  moreover have "to_query (Some \<lparr>name = Some [CHR 0xE3, CHR 0x80, CHR 0x80], artists = [Some '' '']\<rparr>) = Some []"
    by (simp add: to_query_def strip_def lstrip.simps whitespace_def List.map_filter_simps)
  ultimately show ?thesis
    by (simp add: playlist_untitled_def usable_queries_Cons to_query_untitled add_query_def)
qed

lemma expand_playlist30:
  "spotify_queries_from_url (Inr (catalog_server playlist30))
      ''https://open.spotify.com/playlist/37i9dQZF1DX''
   = Some (Inr (replicate 25 ''Never Gonna Give You Up Rick Astley''))"
proof -
  have "spotify_queries_from_url (Inr (catalog_server playlist30))
      ''https://open.spotify.com/playlist/37i9dQZF1DX''
    = Some (Inr (take MAX_SPOTIFY_TRACKS (usable_queries playlist30)))"
    using collect_pages_served[of 100 "[]" playlist30 0]
    by (simp add: spotify_queries_from_url_def parse_playlist_url catalog_server_def
        item_tracks_serve_page usable_queries_playlist30 MAX_SPOTIFY_TRACKS_def)
  then show ?thesis by (simp add: usable_queries_playlist30 MAX_SPOTIFY_TRACKS_def)
qed

text \<open>
  Claim C4 as stated fails: the expansion of that playlist does not yield 29 queries.
\<close>

theorem playlist30_yields_25_not_29:
  "\<not> (\<exists>queries. spotify_queries_from_url (Inr (catalog_server playlist30))
          ''https://open.spotify.com/playlist/37i9dQZF1DX'' = Some (Inr queries)
        \<and> length queries = 29)"
  by (simp add: expand_playlist30)

theorem catalog_expansion_capped_witness:
  "spotify_queries_from_url (Inr (catalog_server playlist30))
      ''https://open.spotify.com/playlist/37i9dQZF1DX''
     = Some (Inr (replicate 25 ''Never Gonna Give You Up Rick Astley''))
   \<and> spotify_queries_from_url (Inr (catalog_server playlist_untitled))
      ''https://open.spotify.com/playlist/37i9dQZF1DX''
     = Some (Inl (RuntimeError ''No playable tracks found in that Spotify link.''))
   \<and> usable_queries (replicate 9 titled @ untitled # replicate 20 titled)
     = usable_queries (replicate 9 titled @ replicate 20 titled)"
  using catalog_expansion_capped [where url = "''https://open.spotify.com/playlist/37i9dQZF1DX''"
      and kind = "''playlist''" and resource_id = "''37i9dQZF1DX''" and entries = playlist30
      and t = untitled and xs = "replicate 9 titled" and ys = "replicate 20 titled"]
    catalog_expansion_capped [where url = "''https://open.spotify.com/playlist/37i9dQZF1DX''"
      and kind = "''playlist''" and resource_id = "''37i9dQZF1DX''" and entries = playlist_untitled
      and t = untitled and xs = "[]" and ys = "[]"]
  by (simp add: parse_playlist_url to_query_untitled usable_queries_playlist30
      usable_queries_playlist_untitled MAX_SPOTIFY_TRACKS_def)

section \<open>Every sleeping idle task is known to the player\<close>

lemma tasks_ok_frame:
  "tasks g' = tasks g \<Longrightarrow> idle_task g' = idle_task g \<Longrightarrow> tasks_ok g' = tasks_ok g"
  by (simp add: tasks_ok_def)

lemma tasks_ok_new_guild: "tasks_ok new_guild"
  by (simp add: tasks_ok_def new_guild_def)

lemma tasks_ok_cancel: "tasks_ok g \<Longrightarrow> tasks_ok (cancel_idle_disconnect g)"
  using cancel_no_sleeping[of g] by (simp add: tasks_ok_iff)

lemma tasks_ok_idle_disconnect_body: "tasks_ok (idle_disconnect_body g) = tasks_ok g"
  by (rule tasks_ok_frame)
    (simp_all add: idle_disconnect_body_def vc_disconnect_def split: option.splits)

lemma tasks_ok_wake: "tasks_ok g \<Longrightarrow> tasks_ok (wake k g)"
proof (cases "k < length (tasks g) \<and> status (tasks g ! k) = Sleeping \<and> wake_at (tasks g ! k) \<le> clock g")
  case False
  assume "tasks_ok g"
  with False show ?thesis by (auto simp: wake_def)
next
  case True
  assume ok: "tasks_ok g"
  let ?g1 = "g\<lparr>tasks := (tasks g)[k := (tasks g ! k)\<lparr>status := Done\<rparr>]\<rparr>"
  have "tasks_ok ?g1"
    unfolding tasks_ok_iff
  proof (intro allI impI)
    fix j
    assume j: "j < length (tasks ?g1)" and sl: "status (tasks ?g1 ! j) = Sleeping"
    have "j \<noteq> k" using sl j by (auto simp: nth_list_update)
    then have "status (tasks g ! j) = Sleeping" using sl by simp
    then show "idle_task ?g1 = Some j" using ok j by (simp add: tasks_ok_iff)
  qed
  then show ?thesis using True by (simp add: wake_def tasks_ok_idle_disconnect_body)
qed

lemma tasks_ok_fold_wake: "tasks_ok g \<Longrightarrow> tasks_ok (fold wake ks g)"
  by (induction ks arbitrary: g) (simp_all add: tasks_ok_wake)

lemma tasks_ok_elapse: "tasks_ok g \<Longrightarrow> tasks_ok (elapse dt g)"
  by (simp add: elapse_def tasks_ok_fold_wake)

text \<open>The task table after \<^verbatim>\<open>play_next\<close> is the one a cancel or a schedule leaves, or the old one.\<close>

lemma cancel_tasks_frame:
  "tasks g' = tasks g \<Longrightarrow> idle_task g' = idle_task g \<Longrightarrow>
   tasks (cancel_idle_disconnect g') = tasks (cancel_idle_disconnect g)"
  by (simp add: cancel_idle_disconnect_def split: option.splits)

lemma schedule_tasks_frame:
  assumes "tasks g' = tasks g" "idle_task g' = idle_task g" "clock g' = clock g"
  shows "tasks (schedule_idle_disconnect g') = tasks (schedule_idle_disconnect g)"
    and "idle_task (schedule_idle_disconnect g') = idle_task (schedule_idle_disconnect g)"
  using assms cancel_tasks_frame[OF assms(1,2)]
  by (simp_all add: schedule_idle_disconnect_def Let_def)

lemma play_next_tasks:
  "(tasks (state_of (play_next ok g)) = tasks g \<and> idle_task (state_of (play_next ok g)) = idle_task g)
   \<or> (tasks (state_of (play_next ok g)) = tasks (cancel_idle_disconnect g)
        \<and> idle_task (state_of (play_next ok g)) = None)
   \<or> (tasks (state_of (play_next ok g)) = tasks (schedule_idle_disconnect g)
        \<and> idle_task (state_of (play_next ok g)) = idle_task (schedule_idle_disconnect g))"
proof (cases "voice_client g")
  case None
  then show ?thesis by (simp add: play_next_no_voice_client)
next
  case (Some vc)
  show ?thesis
  proof (cases "lock g")
    case True
    then show ?thesis using Some by (simp add: play_next_blocked_if_locked)
  next
    case False
    show ?thesis
    proof (cases "is_playing vc \<or> is_paused vc")
      case True
      then show ?thesis using Some False by (simp add: play_next_while_playing)
    next
      case silent: False
      show ?thesis
      proof (cases "queue g")
        case Nil
        have "tasks (schedule_idle_disconnect (g\<lparr>lock := True, now_playing := None\<rparr>))
              = tasks (schedule_idle_disconnect g)"
          and "idle_task (schedule_idle_disconnect (g\<lparr>lock := True, now_playing := None\<rparr>))
              = idle_task (schedule_idle_disconnect g)"
          by (rule schedule_tasks_frame; simp)+
        then show ?thesis using Some False silent Nil
          by (simp add: play_next_empty_queue release_def)
      next
        case (Cons song rest)
        let ?g3 = "set_now_playing song (popleft song rest (g\<lparr>lock := True\<rparr>))"
        have t: "tasks (cancel_idle_disconnect ?g3) = tasks (cancel_idle_disconnect g)"
          by (rule cancel_tasks_frame) (simp_all add: set_now_playing_def popleft_def)
        consider (fails) "\<not> ok (stream_url song)"
          | (starts) "ok (stream_url song)" "is_connected vc"
          | (raises) "ok (stream_url song)" "\<not> is_connected vc"
          by blast
        then have "tasks (state_of (play_next ok g)) = tasks (cancel_idle_disconnect g)
            \<and> idle_task (state_of (play_next ok g)) = None"
        proof cases
          case fails
          show ?thesis
            using play_next_attach_fails[of g vc song rest ok] Some False silent Cons fails t
            by simp
        next
          case starts
          show ?thesis
            using play_next_starts[of g vc song rest ok] Some False silent Cons starts t
            by (simp add: release_def vc_play_def)
        next
          case raises
          show ?thesis
            using play_next_not_connected[of g vc song rest ok] Some False silent Cons raises t
            by (simp add: release_def)
        qed
        then show ?thesis by blast
      qed
    qed
  qed
qed

lemma tasks_ok_play_next:
  assumes "tasks_ok g"
  shows "tasks_ok (state_of (play_next ok g))"
proof -
  let ?s = "state_of (play_next ok g)"
  from play_next_tasks[of ok g] consider
      (same) "tasks ?s = tasks g" "idle_task ?s = idle_task g"
    | (cancelled) "tasks ?s = tasks (cancel_idle_disconnect g)" "idle_task ?s = None"
    | (scheduled) "tasks ?s = tasks (schedule_idle_disconnect g)"
        "idle_task ?s = idle_task (schedule_idle_disconnect g)"
    by auto
  then show ?thesis
  proof cases
    case same
    then show ?thesis using assms tasks_ok_frame by blast
  next
    case cancelled
    then have "tasks_ok ?s = tasks_ok (cancel_idle_disconnect g)"
      by (intro tasks_ok_frame) simp_all
    then show ?thesis using assms by (simp add: tasks_ok_cancel)
  next
    case scheduled
    then have "tasks_ok ?s = tasks_ok (schedule_idle_disconnect g)"
      by (intro tasks_ok_frame) simp_all
    then show ?thesis using assms by (simp add: tasks_ok_schedule)
  qed
qed

lemma tasks_ok_q_append: "tasks_ok (q_append song g) = tasks_ok g"
  by (rule tasks_ok_frame) (simp_all add: q_append_def)

lemma tasks_ok_vc_stop: "tasks_ok (vc_stop g) = tasks_ok g"
  by (rule tasks_ok_frame) (simp_all add: vc_stop_def)

lemma connect_with_retry_tasks:
  "tasks (snd (connect_with_retry conn ch ks last_exc g)) = tasks g
   \<and> idle_task (snd (connect_with_retry conn ch ks last_exc g)) = idle_task g"
  by (induction ks arbitrary: last_exc g) (simp_all add: Let_def split: sum.splits)

lemma ensure_voice_tasks:
  "tasks (snd (ensure_voice conn i g)) = tasks g \<and> idle_task (snd (ensure_voice conn i g)) = idle_task g"
proof -
  have a: "tasks (snd (case connect_with_retry conn ch ks le h of
      (Inl e, g1) \<Rightarrow> (Inl e, g1)
    | (Inr vc, g1) \<Rightarrow> if \<not> is_connected vc then (Inl (RuntimeError m), g1) else (Inr vc, g1))) = tasks h
    \<and> idle_task (snd (case connect_with_retry conn ch ks le h of
      (Inl e, g1) \<Rightarrow> (Inl e, g1)
    | (Inr vc, g1) \<Rightarrow> if \<not> is_connected vc then (Inl (RuntimeError m), g1) else (Inr vc, g1))) = idle_task h"
    for ch ks le h m
    using connect_with_retry_tasks[of conn ch ks le h]
    by (cases "connect_with_retry conn ch ks le h") (auto split: sum.splits)
  show ?thesis
    by (simp add: ensure_voice_def a vc_disconnect_def Let_def
        del: connect_with_retry.simps split: user.splits option.splits)
qed

lemma tasks_ok_ensure_voice: "tasks_ok (snd (ensure_voice conn i g)) = tasks_ok g"
  by (rule tasks_ok_frame) (simp_all add: ensure_voice_tasks)

lemma tasks_ok_join: "tasks_ok g \<Longrightarrow> tasks_ok (snd (join_cmd env i g))"
  using tasks_ok_ensure_voice[of "connect env" i g]
  by (cases "ensure_voice (connect env) i g")
    (auto simp: join_cmd_def tasks_ok_schedule split: sum.splits)

lemma tasks_ok_skip: "tasks_ok g \<Longrightarrow> tasks_ok (snd (skip (\<lambda>h. h) i g))"
  by (simp add: skip_def skip_steps_def tasks_ok_vc_stop split: option.splits)

lemma tasks_ok_stop: "tasks_ok g \<Longrightarrow> tasks_ok (snd (stop i g))"
proof -
  assume ok: "tasks_ok g"
  have a: "tasks_ok h" if "tasks h = tasks g" "idle_task h = idle_task g" for h
    using ok that tasks_ok_frame by blast
  have b: "tasks_ok (schedule_idle_disconnect h)" if "tasks h = tasks g" "idle_task h = idle_task g" for h
    using a[OF that] by (rule tasks_ok_schedule)
  show ?thesis
    using ok by (auto simp: stop_def Let_def q_clear_def vc_stop_def a b split: option.splits)
qed

lemma tasks_ok_leave: "tasks_ok g \<Longrightarrow> tasks_ok (snd (leave i g))"
proof -
  assume ok: "tasks_ok g"
  let ?g2 = "(q_clear g)\<lparr>now_playing := None\<rparr>"
  have "tasks_ok ?g2" using ok tasks_ok_frame[of ?g2 g] by (simp add: q_clear_def)
  then have c: "tasks_ok (cancel_idle_disconnect ?g2)" by (rule tasks_ok_cancel)
  have "tasks_ok (vc_disconnect (cancel_idle_disconnect ?g2))"
    using c tasks_ok_frame[of "vc_disconnect (cancel_idle_disconnect ?g2)" "cancel_idle_disconnect ?g2"]
    by (simp add: vc_disconnect_def)
  then show ?thesis using ok c by (simp add: leave_def Let_def split: option.splits)
qed

lemma tasks_ok_spotify_fold:
  "tasks_ok (snd (snd (snd acc))) \<Longrightarrow> tasks_ok (snd (snd (snd (fold (spotify_step env u) qs acc))))"
proof (induction qs arbitrary: acc)
  case Nil
  then show ?case by simp
next
  case (Cons q qs)
  have "tasks_ok (snd (snd (snd (spotify_step env u q acc))))"
    using Cons.prems
    by (cases acc) (auto simp: spotify_step_def Let_def tasks_ok_q_append split: sum.splits)
  then show ?case using Cons.IH by simp
qed

lemma tasks_ok_play:
  assumes "tasks_ok g"
  shows "tasks_ok (snd (play env i query g))"
proof (cases "ensure_voice (connect env) i g")
  case (Pair r g1)
  have g1: "tasks_ok g1" using tasks_ok_ensure_voice[of "connect env" i g] Pair assms by simp
  show ?thesis
  proof (cases r)
    case (Inl e)
    then show ?thesis using Pair g1 by (simp add: play_def)
  next
    case (Inr vc)
    let ?g2 = "cancel_idle_disconnect g1"
    have g2: "tasks_ok ?g2" using g1 by (rule tasks_ok_cancel)
    show ?thesis
    proof (cases "is_connected vc")
      case False
      then show ?thesis using Pair Inr g1 by (simp add: play_def)
    next
      case True
      show ?thesis
      proof (cases "contains ''open.spotify.com/'' (lower query)")
        case spot: True
        show ?thesis
        proof (cases "spotify_queries_from_url
                 (get_spotify_client (spotify_client env) (SPOTIFY_CLIENT_ID env)
                    (SPOTIFY_CLIENT_SECRET env) (new_spotify env)) query")
          case None
          then show ?thesis using Pair Inr True spot g2 by (simp add: play_def Let_def)
        next
          case (Some res)
          show ?thesis
          proof (cases res)
            case (Inl e)
            then show ?thesis using Pair Inr True spot g2 Some by (simp add: play_def Let_def)
          next
            case qs: (Inr qs)
            obtain added failed ft g3 where loop: "spotify_loop env (user i) qs ?g2 = (added, failed, ft, g3)"
              by (cases "spotify_loop env (user i) qs ?g2") auto
            have g3: "tasks_ok g3"
              using tasks_ok_spotify_fold[of "(0, 0, None, ?g2)" env "user i" qs] g2 loop
              by (simp add: spotify_loop_def)
            have g4: "tasks_ok (state_of (play_next (ffmpeg_ok env) g3))"
              using g3 by (rule tasks_ok_play_next)
            show ?thesis
              using Pair Inr True spot Some qs loop g3 g4
              by (cases "play_next (ffmpeg_ok env) g3") (simp_all add: play_def Let_def)
          qed
        qed
      next
        case single: False
        show ?thesis
        proof (cases "extract_song (ydl env) (oembed env) query")
          case (Inl e)
          then show ?thesis using Pair Inr True single g2 by (simp add: play_def Let_def)
        next
          case song0: (Inr song0)
          let ?g3 = "q_append (set_requester (user i) song0) ?g2"
          have g4: "tasks_ok (state_of (play_next (ffmpeg_ok env) ?g3))"
            using g2 by (intro tasks_ok_play_next) (simp add: tasks_ok_q_append)
          show ?thesis
            using Pair Inr True single song0 g4
            by (cases "play_next (ffmpeg_ok env) ?g3") (simp_all add: play_def Let_def)
        qed
      qed
    qed
  qed
qed

lemma tasks_ok_step: "tasks_ok g \<Longrightarrow> tasks_ok (step e g)"
  by (cases e)
    (simp_all add: tasks_ok_join tasks_ok_play tasks_ok_skip tasks_ok_stop tasks_ok_leave
      tasks_ok_elapse after_playback_def tasks_ok_play_next tasks_ok_vc_stop)

lemma tasks_ok_run: "tasks_ok g \<Longrightarrow> tasks_ok (run evs g)"
  unfolding run_def by (induction evs arbitrary: g) (simp_all add: tasks_ok_step)

lemma tasks_ok_reachable: "tasks_ok (run evs new_guild)"
  by (rule tasks_ok_run) (rule tasks_ok_new_guild)

end
